theory Spec2Isabelle
  imports Main "HOL-Library.Word"
begin

unbundle bit_operations_syntax

section \<open>Machine types\<close>

type_synonym byte = "8 word"
type_synonym u32 = "32 word"
type_synonym u64 = "64 word"

section \<open>Hex encoding (sfd\_hash.c, lines 9--16)\<close>

text \<open>
  The lookup table of line 10. The two output cells of byte \<open>i\<close> are written by index,
  then the terminator is stored at \<open>len * 2\<close>. The character array \<open>out_hex\<close> is the
  caller's buffer with whatever it held before; the function returns it updated.
  Indices beyond \<open>bytes\<close> or \<open>out_hex\<close> are undefined behaviour in C; every statement
  below about this function names the bounds it needs.
\<close>

definition hex :: string where
  "hex = ''0123456789abcdef''"

definition sfd_hex_encode_lower :: "byte list \<Rightarrow> nat \<Rightarrow> char list \<Rightarrow> char list" where
  "sfd_hex_encode_lower bytes len out_hex =
     (fold (\<lambda>i out. out[i * 2 := hex ! unat (drop_bit 4 (bytes ! i) AND 0x0F),
                          i * 2 + 1 := hex ! unat (bytes ! i AND 0x0F)])
           [0..<len] out_hex)
       [len * 2 := CHR 0x00]"

section \<open>The digest primitive\<close>

subsection \<open>SHA-256 as the standard defines it\<close>

text \<open>
  The hasher obtains its digest from the cryptographic library
  (\<^verbatim>\<open>EVP_sha256\<close>), which is not part of the sources. The function below is
  the reference it is measured against: SHA-256 of FIPS 180-4, over a list of bytes.
\<close>

text \<open>
  The sixty-four round constants and the eight initial hash words (sections 4.2.2 and
  5.3.3 of the standard), as unsigned 32-bit values in decimal.
\<close>

definition K256 :: "u32 list" where
  "K256 =
   [1116352408, 1899447441, 3049323471, 3921009573, 961987163, 1508970993,
    2453635748, 2870763221, 3624381080, 310598401, 607225278, 1426881987,
    1925078388, 2162078206, 2614888103, 3248222580, 3835390401, 4022224774,
    264347078, 604807628, 770255983, 1249150122, 1555081692, 1996064986,
    2554220882, 2821834349, 2952996808, 3210313671, 3336571891, 3584528711,
    113926993, 338241895, 666307205, 773529912, 1294757372, 1396182291,
    1695183700, 1986661051, 2177026350, 2456956037, 2730485921, 2820302411,
    3259730800, 3345764771, 3516065817, 3600352804, 4094571909, 275423344,
    430227734, 506948616, 659060556, 883997877, 958139571, 1322822218,
    1537002063, 1747873779, 1955562222, 2024104815, 2227730452, 2361852424,
    2428436474, 2756734187, 3204031479, 3329325298]"

definition H256_init :: "u32 list" where
  "H256_init =
   [1779033703, 3144134277, 1013904242, 2773480762, 1359893119, 2600822924,
    528734635, 1541459225]"

definition rotr :: "nat \<Rightarrow> u32 \<Rightarrow> u32" where
  "rotr n x = drop_bit n x OR push_bit (32 - n) x"

definition Ch :: "u32 \<Rightarrow> u32 \<Rightarrow> u32 \<Rightarrow> u32" where
  "Ch x y z = (x AND y) XOR (NOT x AND z)"

definition Maj :: "u32 \<Rightarrow> u32 \<Rightarrow> u32 \<Rightarrow> u32" where
  "Maj x y z = (x AND y) XOR (x AND z) XOR (y AND z)"

definition Sigma0 :: "u32 \<Rightarrow> u32" where
  "Sigma0 x = rotr 2 x XOR rotr 13 x XOR rotr 22 x"

definition Sigma1 :: "u32 \<Rightarrow> u32" where
  "Sigma1 x = rotr 6 x XOR rotr 11 x XOR rotr 25 x"

definition sigma0 :: "u32 \<Rightarrow> u32" where
  "sigma0 x = rotr 7 x XOR rotr 18 x XOR drop_bit 3 x"

definition sigma1 :: "u32 \<Rightarrow> u32" where
  "sigma1 x = rotr 17 x XOR rotr 19 x XOR drop_bit 10 x"

fun be_words :: "byte list \<Rightarrow> u32 list" where
  "be_words (a # b # c # d # rest) =
     (push_bit 24 (ucast a) OR push_bit 16 (ucast b) OR push_bit 8 (ucast c) OR ucast d)
       # be_words rest"
| "be_words _ = []"

definition be_bytes32 :: "u32 \<Rightarrow> byte list" where
  "be_bytes32 w = [ucast (drop_bit 24 w), ucast (drop_bit 16 w), ucast (drop_bit 8 w), ucast w]"

definition be_bytes64 :: "u64 \<Rightarrow> byte list" where
  "be_bytes64 w = map (\<lambda>i. ucast (drop_bit (8 * (7 - i)) w)) [0..<8]"

definition sha_pad :: "byte list \<Rightarrow> byte list" where
  "sha_pad m = m @ [0x80] @ replicate ((119 - length m mod 64) mod 64) 0
                 @ be_bytes64 (of_nat (8 * length m))"

fun schedule :: "nat \<Rightarrow> u32 list \<Rightarrow> u32 list" where
  "schedule 0 w = w"
| "schedule (Suc k) w =
     schedule k (w @ [sigma1 (w ! (length w - 2)) + w ! (length w - 7)
                      + sigma0 (w ! (length w - 15)) + w ! (length w - 16)])"

fun round256 :: "u32 list \<Rightarrow> (u32 \<times> u32) \<Rightarrow> u32 list" where
  "round256 [a, b, c, d, e, f, g, h] (k, w) =
     (let t1 = h + Sigma1 e + Ch e f g + k + w;
          t2 = Sigma0 a + Maj a b c
      in [t1 + t2, a, b, c, d + t1, e, f, g])"
| "round256 s _ = s"

definition compress :: "u32 list \<Rightarrow> byte list \<Rightarrow> u32 list" where
  "compress hs block =
     map2 (+) hs (foldl round256 hs (zip K256 (schedule 48 (be_words block))))"

fun blocks :: "u32 list \<Rightarrow> byte list \<Rightarrow> nat \<Rightarrow> u32 list" where
  "blocks hs bs 0 = hs"
| "blocks hs bs (Suc n) = blocks (compress hs (take 64 bs)) (drop 64 bs) n"

definition sha256 :: "byte list \<Rightarrow> byte list" where
  "sha256 m =
     (let p = sha_pad m in concat (map be_bytes32 (blocks H256_init p (length p div 64))))"

subsection \<open>The library interface the hasher calls\<close>

text \<open>
  The four library entry points the hasher uses, as a record of functions over an
  abstract context type \<open>'c\<close>. \<open>None\<close> stands for the failure value of the call
  (a null context, or a return value other than 1). \<^verbatim>\<open>EVP_DigestFinal_ex\<close>
  yields the bytes it stored in \<open>md\<close>; their number is \<open>md_len\<close>.
\<close>

record 'c evp =
  EVP_MD_CTX_new :: "'c option"
  EVP_DigestInit_ex :: "'c \<Rightarrow> 'c option"
  EVP_DigestUpdate :: "'c \<Rightarrow> byte list \<Rightarrow> 'c option"
  EVP_DigestFinal_ex :: "'c \<Rightarrow> byte list option"

fun evp_updates :: "'c evp \<Rightarrow> 'c \<Rightarrow> byte list list \<Rightarrow> 'c option" where
  "evp_updates lib c [] = Some c"
| "evp_updates lib c (d # ds) =
     (case EVP_DigestUpdate lib c d of None \<Rightarrow> None | Some c' \<Rightarrow> evp_updates lib c' ds)"

definition evp_digest :: "'c evp \<Rightarrow> byte list list \<Rightarrow> byte list option" where
  "evp_digest lib chunks =
     (case EVP_MD_CTX_new lib of
        None \<Rightarrow> None
      | Some c0 \<Rightarrow>
          (case EVP_DigestInit_ex lib c0 of
             None \<Rightarrow> None
           | Some c \<Rightarrow>
               (case evp_updates lib c chunks of
                  None \<Rightarrow> None
                | Some c' \<Rightarrow> EVP_DigestFinal_ex lib c')))"

text \<open>
  The library's contract: whenever a sequence new, init, update \dots, final goes
  through, the bytes it delivers are the SHA-256 of the concatenated chunks.
\<close>

definition evp_is_sha256 :: "'c evp \<Rightarrow> bool" where
  "evp_is_sha256 lib \<longleftrightarrow>
     (\<forall>chunks md. evp_digest lib chunks = Some md \<longrightarrow> md = sha256 (concat chunks))"

text \<open>
  A library that keeps the message absorbed so far and never fails, and one whose
  calls fail as a script of four flags and a length says (used to run the failure paths).
\<close>

definition evp_reference :: "byte list evp" where
  "evp_reference =
     \<lparr>EVP_MD_CTX_new = Some [],
      EVP_DigestInit_ex = (\<lambda>c. Some []),
      EVP_DigestUpdate = (\<lambda>c d. Some (c @ d)),
      EVP_DigestFinal_ex = (\<lambda>c. Some (sha256 c))\<rparr>"

definition evp_scripted :: "bool \<Rightarrow> bool \<Rightarrow> bool \<Rightarrow> bool \<Rightarrow> nat \<Rightarrow> byte list evp" where
  "evp_scripted new_ok init_ok update_ok final_ok md_len =
     \<lparr>EVP_MD_CTX_new = (if new_ok then Some [] else None),
      EVP_DigestInit_ex = (\<lambda>c. if init_ok then Some [] else None),
      EVP_DigestUpdate = (\<lambda>c d. if update_ok then Some (c @ d) else None),
      EVP_DigestFinal_ex = (\<lambda>c. if final_ok then Some (replicate md_len 0) else None)\<rparr>"

section \<open>Files and streams\<close>

text \<open>
  A file is its bytes and, possibly, a read fault: \<open>read_fault = Some k\<close> means that
  the device fails once \<open>k\<close> bytes have been delivered. A stream (\<^verbatim>\<open>FILE\<close>) holds
  the bytes not yet delivered, the distance to the fault, and the two indicators.
  \<^verbatim>\<open>fread\<close> delivers fewer items than asked for only at end of file or at a
  read error, and sets the matching indicator (ISO C, 7.21.8.1).
\<close>

record disk_file =
  content :: "byte list"
  read_fault :: "nat option"

record FILE =
  pending :: "byte list"
  fault_in :: "nat option"
  eof_ind :: bool
  err_ind :: bool

definition fopen :: "(string \<Rightarrow> disk_file option) \<Rightarrow> string \<Rightarrow> FILE option" where
  "fopen fs path =
     (case fs path of
        None \<Rightarrow> None
      | Some F \<Rightarrow> Some \<lparr>pending = content F, fault_in = read_fault F,
                         eof_ind = False, err_ind = False\<rparr>)"

definition fread :: "nat \<Rightarrow> FILE \<Rightarrow> byte list \<times> FILE" where
  "fread count f =
     (let hit = (case fault_in f of None \<Rightarrow> False | Some k \<Rightarrow> k \<le> length (pending f));
          limit = (case fault_in f of None \<Rightarrow> length (pending f)
                                    | Some k \<Rightarrow> min k (length (pending f)));
          n = min count limit
      in (take n (pending f),
          f\<lparr>pending := drop n (pending f),
            fault_in := map_option (\<lambda>k. k - n) (fault_in f),
            eof_ind := eof_ind f \<or> (n < count \<and> \<not> hit),
            err_ind := err_ind f \<or> (n < count \<and> hit)\<rparr>))"

definition feof :: "FILE \<Rightarrow> bool" where
  "feof f = eof_ind f"

definition ferror :: "FILE \<Rightarrow> bool" where
  "ferror f = err_ind f"

section \<open>The hasher (sfd\_hash.c, lines 18--84)\<close>

text \<open>
  The calls the hasher makes to the two libraries, in the order it makes them. A
  flag says whether the call succeeded; \<open>Fread\<close> carries the count asked for and the
  bytes delivered, \<open>Digest_update\<close> the bytes passed, \<open>Digest_final\<close> the value of
  \<open>md_len\<close> on success.
\<close>

datatype event =
    Fopen string bool
  | Fread nat "byte list"
  | Fclose
  | Ctx_new bool
  | Digest_init bool
  | Digest_update "byte list" bool
  | Digest_final "nat option"
  | Ctx_free

definition SFD_SHA256_LEN :: nat where
  "SFD_SHA256_LEN = 32"

definition buf_size :: nat where
  "buf_size = 64 * 1024"

text \<open>
  How the loop is left: by \<open>break\<close>, with the digest context as it then is, or by a
  \<open>return\<close> with its code. The context is released just before such a return; the
  second argument is the state in which it is released, where the library has left
  a state (after a failed update it has not).
\<close>

datatype 'c loop_exit = Break 'c | Return int "'c option"

text \<open>
  Lines 45--52: a non-empty chunk is passed to the digest and then counted; the
  counter is a 64-bit unsigned integer.
\<close>

definition feed :: "'c evp \<Rightarrow> 'c \<Rightarrow> u64 \<Rightarrow> byte list \<Rightarrow> ('c \<times> u64 \<times> event list) option" where
  "feed lib ctx out_bytes buf =
     (if 0 < length buf then
        (case EVP_DigestUpdate lib ctx buf of
           None \<Rightarrow> None
         | Some ctx' \<Rightarrow> Some (ctx', out_bytes + of_nat (length buf), [Digest_update buf True]))
      else Some (ctx, out_bytes, []))"

text \<open>
  Lines 43--64. The result is how the loop was left (\<open>break\<close> with the context, or a
  \<open>return\<close> with its code after the clean-up calls), the counter, and the calls made.
\<close>

function hash_loop :: "'c evp \<Rightarrow> FILE \<Rightarrow> 'c \<Rightarrow> u64 \<Rightarrow> 'c loop_exit \<times> u64 \<times> event list" where
  "hash_loop lib f ctx out_bytes =
     (case fread buf_size f of
        (buf, f') \<Rightarrow>
          (case feed lib ctx out_bytes buf of
             None \<Rightarrow>
               (Return 3 None, out_bytes,
                [Fread buf_size buf, Digest_update buf False, Ctx_free, Fclose])
           | Some (ctx', out_bytes', fed) \<Rightarrow>
               if length buf < buf_size \<and> feof f' then
                 (Break ctx', out_bytes', Fread buf_size buf # fed)
               else if length buf < buf_size \<and> ferror f' then
                 (Return 2 (Some ctx'), out_bytes',
                  Fread buf_size buf # fed @ [Ctx_free, Fclose])
               else
                 (case hash_loop lib f' ctx' out_bytes' of
                    (exit, out_bytes'', evs) \<Rightarrow>
                      (exit, out_bytes'', Fread buf_size buf # fed @ evs))))"
  by pat_completeness auto

termination hash_loop
proof (relation "measure (\<lambda>(lib, f, ctx, out_bytes). length (pending f))")
  show "wf (measure (\<lambda>(lib, f, ctx, out_bytes). length (pending f)))"
    by simp
next
  fix lib :: "'c evp" and f :: FILE and ctx :: 'c and out_bytes :: u64
    and x buf f' x2 ctx' y out_bytes' fed
  assume rd: "(buf, f') = fread buf_size f"
    and a: "\<not> (length buf < buf_size \<and> feof f')"
    and b: "\<not> (length buf < buf_size \<and> ferror f')"
  have short: "length buf < buf_size \<Longrightarrow> eof_ind f' \<or> err_ind f'"
    using rd by (auto simp: fread_def Let_def split: option.splits)
  have full: "\<not> length buf < buf_size"
    using short a b by (auto simp: feof_def ferror_def)
  have "length (pending f') < length (pending f)"
    using rd full by (auto simp: fread_def Let_def buf_size_def split: option.splits)
  then show "((lib, f', ctx', out_bytes'), lib, f, ctx, out_bytes)
      \<in> measure (\<lambda>(lib, f, ctx, out_bytes). length (pending f))"
    by simp
qed

text \<open>
  The function itself. A pointer argument is \<open>None\<close> when it is null, and otherwise
  holds the object it points to: the path string, the buffer \<open>out_hash\<close> with its
  present contents, the counter cell. The result gives the return code, the two
  objects after the call, and the library calls made.
\<close>

record hash_result =
  rc :: int
  hash_after :: "byte list option"
  bytes_after :: "u64 option"
  calls :: "event list"

definition memcpy :: "byte list \<Rightarrow> byte list \<Rightarrow> nat \<Rightarrow> byte list" where
  "memcpy dst src n = take n src @ drop n dst"

definition sfd_sha256_file ::
  "(string \<Rightarrow> disk_file option) \<Rightarrow> 'c evp \<Rightarrow> string option \<Rightarrow> byte list option \<Rightarrow> u64 option
     \<Rightarrow> hash_result" where
  "sfd_sha256_file fs lib path out_hash out_bytes =
     (case (path, out_hash, out_bytes) of
        (Some p, Some h, Some b) \<Rightarrow>
          (case fopen fs p of
             None \<Rightarrow>
               \<lparr>rc = 2, hash_after = Some h, bytes_after = Some 0, calls = [Fopen p False]\<rparr>
           | Some f \<Rightarrow>
               (case EVP_MD_CTX_new lib of
                  None \<Rightarrow>
                    \<lparr>rc = 3, hash_after = Some h, bytes_after = Some 0,
                     calls = [Fopen p True, Ctx_new False, Fclose]\<rparr>
                | Some ctx0 \<Rightarrow>
                    (case EVP_DigestInit_ex lib ctx0 of
                       None \<Rightarrow>
                         \<lparr>rc = 3, hash_after = Some h, bytes_after = Some 0,
                          calls = [Fopen p True, Ctx_new True, Digest_init False,
                                   Ctx_free, Fclose]\<rparr>
                     | Some ctx \<Rightarrow>
                         (case hash_loop lib f ctx 0 of
                            (Return code released, n, evs) \<Rightarrow>
                              \<lparr>rc = code, hash_after = Some h, bytes_after = Some n,
                               calls = [Fopen p True, Ctx_new True, Digest_init True] @ evs\<rparr>
                          | (Break ctx', n, evs) \<Rightarrow>
                              (case EVP_DigestFinal_ex lib ctx' of
                                 None \<Rightarrow>
                                   \<lparr>rc = 3, hash_after = Some h, bytes_after = Some n,
                                    calls = [Fopen p True, Ctx_new True, Digest_init True] @ evs
                                            @ [Digest_final None, Ctx_free, Fclose]\<rparr>
                               | Some md \<Rightarrow>
                                   if length md \<noteq> SFD_SHA256_LEN then
                                     \<lparr>rc = 3, hash_after = Some h, bytes_after = Some n,
                                      calls = [Fopen p True, Ctx_new True, Digest_init True] @ evs
                                              @ [Digest_final (Some (length md)), Ctx_free, Fclose]\<rparr>
                                   else
                                     \<lparr>rc = 0, hash_after = Some (memcpy h md SFD_SHA256_LEN),
                                      bytes_after = Some n,
                                      calls = [Fopen p True, Ctx_new True, Digest_init True] @ evs
                                              @ [Digest_final (Some (length md)), Ctx_free, Fclose]\<rparr>)))))
      | _ \<Rightarrow> \<lparr>rc = 1, hash_after = out_hash, bytes_after = out_bytes, calls = []\<rparr>)"

section \<open>The command-line driver (sfd\_hash\_cli.c)\<close>

text \<open>
  What a run leaves behind: the exit status and the text written to the two streams.
\<close>

record run =
  exit_code :: int
  stdout :: string
  stderr :: string

text \<open>
  The run-time environment: the files, the digest library, and the indeterminate
  initial contents of the automatic arrays \<open>hash\<close> and \<open>hex\<close>.
\<close>

record 'c env =
  files :: "string \<Rightarrow> disk_file option"
  crypto :: "'c evp"
  uninit_hash :: "nat \<Rightarrow> byte"
  uninit_hex :: "nat \<Rightarrow> char"

text \<open>The conversions \<^verbatim>\<open>%s\<close> and \<^verbatim>\<open>%llu\<close> of \<^verbatim>\<open>printf\<close>.\<close>

definition c_string :: "char list \<Rightarrow> string" where
  "c_string buf = takeWhile (\<lambda>c. c \<noteq> CHR 0x00) buf"

definition decimal_digits :: string where
  "decimal_digits = ''0123456789''"

fun decimal :: "nat \<Rightarrow> string" where
  "decimal n =
     (if n < 10 then [decimal_digits ! n]
      else decimal (n div 10) @ [decimal_digits ! (n mod 10)])"

definition usage :: "string \<Rightarrow> string" where
  "usage prog = ''Usage: '' @ prog @ '' <file-path>'' @ [CHR 0x0A]"

text \<open>
  Lines 22--37: what \<open>main\<close> does with the hasher's return code, the array \<open>hash\<close>
  and the counter \<open>bytes\<close> once the call has returned.
\<close>

definition report :: "int \<Rightarrow> byte list \<Rightarrow> u64 \<Rightarrow> char list \<Rightarrow> run" where
  \<open>report code hash bytes hex_buf =
     (if code \<noteq> 0 then
        (if code = 2 then
           \<lparr>exit_code = 2, stdout = [], stderr = ''File I/O error'' @ [CHR 0x0A]\<rparr>
         else
           \<lparr>exit_code = 3, stdout = [], stderr = ''Hashing error'' @ [CHR 0x0A]\<rparr>)
      else
        (let hex_buf' = sfd_hex_encode_lower hash SFD_SHA256_LEN hex_buf
         in \<lparr>exit_code = 0,
             stdout = ''{"algorithm":"sha256","hash":"'' @ c_string hex_buf'
                        @ ''","bytes":'' @ decimal (unat bytes) @ ''}'' @ [CHR 0x0A],
             stderr = []\<rparr>))\<close>

text \<open>
  \<open>main\<close>: \<open>prog\<close> is \<open>argv[0]\<close> and \<open>args\<close> are the arguments after it, so that
  \<open>argc\<close> is \<open>Suc (length args)\<close>.
\<close>

definition main :: "'c env \<Rightarrow> string \<Rightarrow> string list \<Rightarrow> run" where
  "main e prog args =
     (if Suc (length args) \<noteq> 2 then
        \<lparr>exit_code = 1, stdout = [], stderr = usage prog\<rparr>
      else
        (let path = args ! 0;
             hash = map (uninit_hash e) [0..<SFD_SHA256_LEN];
             bytes = 0;
             r = sfd_sha256_file (files e) (crypto e) (Some path) (Some hash) (Some bytes)
         in report (rc r)
              (case hash_after r of Some h \<Rightarrow> h | None \<Rightarrow> hash)
              (case bytes_after r of Some n \<Rightarrow> n | None \<Rightarrow> bytes)
              (map (uninit_hex e) [0..<SFD_SHA256_LEN * 2 + 1])))"

section \<open>Notions used to state the properties\<close>

text \<open>
  The two characters the specification asks for one byte: a character of
  \<open>0-9a-f\<close> for the high nibble, then one for the low nibble.
\<close>

definition hex_pair :: "byte \<Rightarrow> string" where
  "hex_pair b = [hex ! (unat b div 16), hex ! (unat b mod 16)]"

text \<open>
  Readings of a call sequence: the non-empty chunks \<^verbatim>\<open>fread\<close> delivered, the
  chunks passed to \<^verbatim>\<open>EVP_DigestUpdate\<close>, and those among them that the digest
  accepted.
\<close>

definition reads :: "event list \<Rightarrow> byte list list" where
  "reads evs = concat (map (\<lambda>e. case e of Fread k d \<Rightarrow> (if d = [] then [] else [d]) | _ \<Rightarrow> []) evs)"

definition fed :: "event list \<Rightarrow> byte list list" where
  "fed evs = concat (map (\<lambda>e. case e of Digest_update d ok \<Rightarrow> [d] | _ \<Rightarrow> []) evs)"

definition fed_ok :: "event list \<Rightarrow> byte list list" where
  "fed_ok evs =
     concat (map (\<lambda>e. case e of Digest_update d ok \<Rightarrow> (if ok then [d] else []) | _ \<Rightarrow> []) evs)"

text \<open>A call in which the digest primitive failed, or delivered a length other than 32.\<close>

fun digest_failure :: "event \<Rightarrow> bool" where
  "digest_failure (Ctx_new ok) = (\<not> ok)"
| "digest_failure (Digest_init ok) = (\<not> ok)"
| "digest_failure (Digest_update d ok) = (\<not> ok)"
| "digest_failure (Digest_final None) = True"
| "digest_failure (Digest_final (Some n)) = (n \<noteq> 32)"
| "digest_failure _ = False"

text \<open>
  Small concrete environments on which the statements below are run: a file system
  with one file, and an environment around it whose automatic arrays hold arbitrary
  values.
\<close>

definition one_file :: "string \<Rightarrow> disk_file \<Rightarrow> string \<Rightarrow> disk_file option" where
  "one_file name F p = (if p = name then Some F else None)"

definition demo_env :: "(string \<Rightarrow> disk_file option) \<Rightarrow> 'c evp \<Rightarrow> 'c env" where
  "demo_env fs lib =
     \<lparr>files = fs, crypto = lib, uninit_hash = (\<lambda>i. 0xAA), uninit_hex = (\<lambda>i. CHR ''?'')\<rparr>"

text \<open>The call of the hasher that \<open>main\<close> makes (line 21), when it makes one.\<close>

abbreviation hasher_call :: "'c env \<Rightarrow> string list \<Rightarrow> hash_result" where
  "hasher_call e args \<equiv>
     sfd_sha256_file (files e) (crypto e) (Some (args ! 0))
       (Some (map (uninit_hash e) [0..<SFD_SHA256_LEN])) (Some 0)"

text \<open>The stream's read fault lies within the bytes still to be delivered.\<close>

definition fault_hit :: "FILE \<Rightarrow> bool" where
  "fault_hit f = (case fault_in f of None \<Rightarrow> False | Some k \<Rightarrow> k \<le> length (pending f))"

declare hash_loop.simps [simp del]

declare decimal.simps [simp del]

section \<open>Hex encoding: the table, the loop and the terminator\<close>

lemma and_0x0F: "(b::byte) AND 0x0F = take_bit 4 b"
proof -
  have "(15::byte) = mask 4" by (simp add: mask_eq_exp_minus_1)
  then show ?thesis by (simp only: take_bit_eq_mask)
qed

lemma nibble_lo: "unat ((b::byte) AND 0x0F) = unat b mod 16"
  unfolding and_0x0F by (simp add: take_bit_eq_mod unat_mod_distrib)

lemma nibble_hi: "unat (drop_bit 4 (b::byte) AND 0x0F) = unat b div 16"
proof -
  have "unat b < 256" using unsigned_less [of b] by simp
  then have "unat b div 16 < 16" by simp
  then show ?thesis
    unfolding nibble_lo by (simp add: unat_div_distrib drop_bit_eq_div)
qed

lemma length_concat_hex_pair: "length (concat (map hex_pair bs)) = 2 * length bs"
  by (induction bs) (simp_all add: hex_pair_def)

lemma hex_pair_chars: "set (hex_pair b) \<subseteq> set hex"
proof -
  have mem: "k < 16 \<Longrightarrow> hex ! k \<in> set hex" for k
    by (rule nth_mem) (simp add: hex_def)
  have "unat b < 256" using unsigned_less [of b] by simp
  then have "unat b div 16 < 16" by simp
  moreover have "unat b mod 16 < 16" by simp
  ultimately show ?thesis
    unfolding hex_pair_def using mem by simp
qed

lemma concat_hex_pair_chars: "set (concat (map hex_pair bs)) \<subseteq> set hex"
proof (induction bs)
  case Nil
  then show ?case by simp
next
  case (Cons b bs)
  then show ?case using hex_pair_chars [of b] by simp
qed

lemma NUL_not_hex: "CHR 0x00 \<notin> set hex"
  by (simp add: hex_def)

lemma newline_not_hex: "CHR 0x0A \<notin> set hex"
  by (simp add: hex_def)

lemma hex_fold:
  assumes "len \<le> length bytes" and "len * 2 \<le> length out"
  shows "fold (\<lambda>i out. out[i * 2 := hex ! unat (drop_bit 4 (bytes ! i) AND 0x0F),
                          i * 2 + 1 := hex ! unat (bytes ! i AND 0x0F)]) [0..<len] out
         = concat (map hex_pair (take len bytes)) @ drop (len * 2) out"
  using assms
proof (induction len)
  case 0
  then show ?case by simp
next
  case (Suc n)
  let ?pre = "concat (map hex_pair (take n bytes))"
  let ?step = "\<lambda>i out. out[i * 2 := hex ! unat (drop_bit 4 (bytes ! i) AND 0x0F),
                          i * 2 + 1 := hex ! unat (bytes ! i AND 0x0F)]"
  have len_pre: "length ?pre = n * 2"
    using Suc.prems by (simp add: length_concat_hex_pair)
  obtain a b rest where rest: "drop (n * 2) out = a # b # rest" and rest': "rest = drop (Suc n * 2) out"
  proof -
    have "length (drop (n * 2) out) \<ge> 2" using Suc.prems by simp
    then obtain a b rest where r: "drop (n * 2) out = a # b # rest"
      by (metis Suc_le_length_iff numeral_2_eq_2)
    have "drop (Suc n * 2) out = drop 2 (drop (n * 2) out)"
      by (simp add: add.commute)
    then have "rest = drop (Suc n * 2) out" using r by simp
    with r show ?thesis using that by blast
  qed
  have tk: "take (Suc n) bytes = take n bytes @ [bytes ! n]"
    using Suc.prems by (simp add: take_Suc_conv_app_nth)
  have ih: "fold ?step [0..<n] out = ?pre @ a # b # rest"
    using Suc.IH Suc.prems rest by simp
  have "fold ?step [0..<Suc n] out = ?step n (?pre @ a # b # rest)"
    using ih by simp
  also have "\<dots> = ?pre @ [hex ! unat (drop_bit 4 (bytes ! n) AND 0x0F), hex ! unat (bytes ! n AND 0x0F)] @ rest"
    using len_pre by (simp add: list_update_append)
  also have "\<dots> = concat (map hex_pair (take (Suc n) bytes)) @ drop (Suc n * 2) out"
    unfolding tk rest' nibble_hi by (simp add: hex_pair_def nibble_lo)
  finally show ?case .
qed

lemma hex_encode_eq:
  assumes "length bytes = len" and "len * 2 < length out_hex"
  shows "sfd_hex_encode_lower bytes len out_hex
         = concat (map hex_pair bytes) @ CHR 0x00 # drop (len * 2 + 1) out_hex"
proof -
  obtain c rest where d: "drop (len * 2) out_hex = c # rest"
    using assms(2) by (metis Cons_nth_drop_Suc)
  have "drop (Suc (len * 2)) out_hex = drop 1 (drop (len * 2) out_hex)"
    by simp
  then have rest: "drop (Suc (len * 2)) out_hex = rest" using d by simp
  show ?thesis
    unfolding sfd_hex_encode_lower_def
    using assms hex_fold [of len bytes out_hex]
    by (simp add: d rest list_update_append length_concat_hex_pair mult.commute)
qed

lemma c_string_terminated:
  assumes "CHR 0x00 \<notin> set xs"
  shows "c_string (xs @ CHR 0x00 # ys) = xs"
  using assms by (induction xs) (auto simp: c_string_def)

lemma c_string_hex_encode:
  assumes "length bytes = len" and "len * 2 < length out_hex"
  shows "c_string (sfd_hex_encode_lower bytes len out_hex) = concat (map hex_pair bytes)"
proof -
  have "CHR 0x00 \<notin> set (concat (map hex_pair bytes))"
    using concat_hex_pair_chars [of bytes] NUL_not_hex by blast
  then show ?thesis
    unfolding hex_encode_eq [OF assms] by (rule c_string_terminated)
qed

text \<open>
  Claim C5. For a byte array of \<open>len\<close> bytes and an output buffer with room for
  \<open>2 * len + 1\<close> characters, \<open>sfd_hex_encode_lower\<close> leaves in the first \<open>2 * len\<close>
  cells the two characters of each byte in turn, high nibble first, all of them
  from the table \<open>0123456789abcdef\<close> and nothing between, before or after them; cell
  \<open>2 * len\<close> holds the terminator, the cells beyond it are untouched, and the C string
  in the buffer is exactly those \<open>2 * len\<close> characters.
\<close>

theorem sfd_hex_encode_lower_correct:
  assumes "length bytes = len" and "len * 2 < length out_hex"
  shows "take (len * 2) (sfd_hex_encode_lower bytes len out_hex) = concat (map hex_pair bytes)
       \<and> length (concat (map hex_pair bytes)) = 2 * len
       \<and> set (concat (map hex_pair bytes)) \<subseteq> set hex
       \<and> sfd_hex_encode_lower bytes len out_hex ! (len * 2) = CHR 0x00
       \<and> length (sfd_hex_encode_lower bytes len out_hex) = length out_hex
       \<and> drop (len * 2 + 1) (sfd_hex_encode_lower bytes len out_hex) = drop (len * 2 + 1) out_hex
       \<and> c_string (sfd_hex_encode_lower bytes len out_hex) = concat (map hex_pair bytes)"
proof -
  let ?digits = "concat (map hex_pair bytes)"
  have eq: "sfd_hex_encode_lower bytes len out_hex = ?digits @ CHR 0x00 # drop (len * 2 + 1) out_hex"
    using assms by (rule hex_encode_eq)
  have len: "length ?digits = len * 2"
    using assms(1) by (simp add: length_concat_hex_pair)
  have chars: "set ?digits \<subseteq> set hex"
    by (rule concat_hex_pair_chars)
  then have nonul: "CHR 0x00 \<notin> set ?digits" using NUL_not_hex by blast
  have "take (len * 2) (sfd_hex_encode_lower bytes len out_hex) = ?digits"
    unfolding eq using len by simp
  moreover have "sfd_hex_encode_lower bytes len out_hex ! (len * 2) = CHR 0x00"
    unfolding eq using len by (simp add: nth_append)
  moreover have "length (sfd_hex_encode_lower bytes len out_hex) = length out_hex"
    unfolding eq using len assms(2) by simp
  moreover have "drop (len * 2 + 1) (sfd_hex_encode_lower bytes len out_hex) = drop (len * 2 + 1) out_hex"
    unfolding eq using len by simp
  moreover have "c_string (sfd_hex_encode_lower bytes len out_hex) = ?digits"
    unfolding eq using nonul by (rule c_string_terminated)
  ultimately show ?thesis using len chars by simp
qed

theorem sfd_hex_encode_lower_witness:
  "length [0x00, 0xAB, 0x1F :: byte] = 3 \<and> 3 * 2 < length ''zzzzzzzzz''
   \<and> take (3 * 2) (sfd_hex_encode_lower [0x00, 0xAB, 0x1F] 3 ''zzzzzzzzz'') = ''00ab1f''
   \<and> sfd_hex_encode_lower [0x00, 0xAB, 0x1F] 3 ''zzzzzzzzz'' ! (3 * 2) = CHR 0x00
   \<and> drop (3 * 2 + 1) (sfd_hex_encode_lower [0x00, 0xAB, 0x1F] 3 ''zzzzzzzzz'') = ''zz''"
  using sfd_hex_encode_lower_correct [of "[0x00, 0xAB, 0x1F]" 3 "''zzzzzzzzz''"]
  by (simp add: hex_pair_def hex_def)

section \<open>The reference digest and the decimal conversion\<close>

lemma length_round256:
  assumes "length s = 8"
  shows "length (round256 s kw) = 8"
proof -
  obtain a b c d e f g h where "s = [a, b, c, d, e, f, g, h]"
    using assms by (auto simp: length_Suc_conv numeral_eq_Suc)
  then show ?thesis by (cases kw) (simp add: Let_def)
qed

lemma length_foldl_round256:
  assumes "length s = 8"
  shows "length (foldl round256 s kws) = 8"
  using assms by (induction kws arbitrary: s) (simp_all add: length_round256)

lemma length_compress:
  assumes "length hs = 8"
  shows "length (compress hs block) = 8"
  using assms by (simp add: compress_def length_foldl_round256)

lemma length_blocks:
  assumes "length hs = 8"
  shows "length (blocks hs bs n) = 8"
  using assms by (induction n arbitrary: hs bs) (simp_all add: length_compress)

lemma length_concat_be_bytes32: "length (concat (map be_bytes32 ws)) = 4 * length ws"
  by (induction ws) (simp_all add: be_bytes32_def)

lemma length_sha256: "length (sha256 m) = 32"
  by (simp add: sha256_def Let_def length_concat_be_bytes32 length_blocks H256_init_def)

lemma hex_sha256_empty:
  "concat (map hex_pair (sha256 []))
     = ''e3b0c44298fc1c149afbf4c8996fb92427ae41e4649b934ca495991b7852b855''"
  by code_simp

lemma evp_reference_updates: "evp_updates evp_reference c ds = Some (c @ concat ds)"
  by (induction ds arbitrary: c) (simp_all add: evp_reference_def)

lemma evp_reference_digest: "evp_digest evp_reference chunks = Some (sha256 (concat chunks))"
proof -
  have "EVP_MD_CTX_new evp_reference = Some []"
    and "EVP_DigestInit_ex evp_reference [] = Some []"
    and "EVP_DigestFinal_ex evp_reference (concat chunks) = Some (sha256 (concat chunks))"
    by (simp_all add: evp_reference_def)
  then show ?thesis
    by (simp add: evp_digest_def evp_reference_updates)
qed

lemma evp_reference_is_sha256: "evp_is_sha256 evp_reference"
  by (simp add: evp_is_sha256_def evp_reference_digest)

lemma decimal_digit_mem: "k < 10 \<Longrightarrow> decimal_digits ! k \<in> set decimal_digits"
  by (rule nth_mem) (simp add: decimal_digits_def)

lemma decimal_nonempty: "decimal n \<noteq> []"
  by (subst decimal.simps) simp

lemma decimal_chars: "set (decimal n) \<subseteq> set decimal_digits"
proof (induction n rule: decimal.induct)
  case (1 n)
  show ?case
  proof (cases "n < 10")
    case True
    then show ?thesis
      by (subst decimal.simps) (simp add: decimal_digit_mem)
  next
    case False
    have "n mod 10 < 10" by simp
    then show ?thesis
      using "1.IH" [OF False] False
      by (subst decimal.simps) (simp add: decimal_digit_mem)
  qed
qed

lemma decimal_digit_zero:
  assumes "k < 10" and "decimal_digits ! k = CHR ''0''"
  shows "k = 0"
proof -
  have "distinct decimal_digits" by (simp add: decimal_digits_def)
  moreover have "decimal_digits ! 0 = CHR ''0''" by (simp add: decimal_digits_def)
  moreover have "k < length decimal_digits" "0 < length decimal_digits"
    using assms(1) by (simp_all add: decimal_digits_def)
  ultimately show ?thesis
    using assms(2) by (metis nth_eq_iff_index_eq)
qed

lemma decimal_leading_zero:
  assumes "hd (decimal n) = CHR ''0''"
  shows "n = 0"
  using assms
proof (induction n rule: decimal.induct)
  case (1 n)
  show ?case
  proof (cases "n < 10")
    case True
    then have "decimal n = [decimal_digits ! n]"
      by (subst decimal.simps) simp
    then show ?thesis using "1.prems" True decimal_digit_zero by simp
  next
    case False
    then have "decimal n = decimal (n div 10) @ [decimal_digits ! (n mod 10)]"
      by (subst decimal.simps) simp
    then have "hd (decimal n) = hd (decimal (n div 10))"
      using decimal_nonempty [of "n div 10"] by simp
    then have "n div 10 = 0" using "1.IH" [OF False] "1.prems" by simp
    then show ?thesis using False by simp
  qed
qed

lemma decimal_0: "decimal 0 = ''0''"
  by (subst decimal.simps) (simp add: decimal_digits_def)

lemma newline_not_decimal: "CHR 0x0A \<notin> set decimal_digits"
  by (simp add: decimal_digits_def)

section \<open>The read loop\<close>

lemma fread_data:
  assumes "fread count f = (buf, f')"
  shows "buf = take (length buf) (pending f)" and "pending f' = drop (length buf) (pending f)"
    and "length buf \<le> count" and "length buf \<le> length (pending f)"
    and "fault_in f' = map_option (\<lambda>k. k - length buf) (fault_in f)"
  using assms by (auto simp: fread_def Let_def min_def split: option.splits)

lemma fread_short:
  assumes "fread count f = (buf, f')" and "length buf < count"
  shows "eof_ind f' = (eof_ind f \<or> \<not> fault_hit f)"
    and "err_ind f' = (err_ind f \<or> fault_hit f)"
    and "fault_hit f \<Longrightarrow> fault_in f = Some (length buf)"
    and "\<not> fault_hit f \<Longrightarrow> buf = pending f"
  using assms by (auto simp: fread_def fault_hit_def Let_def min_def split: option.splits if_splits)

lemma fread_full:
  assumes "fread count f = (buf, f')" and "\<not> length buf < count"
  shows "eof_ind f' = eof_ind f" and "err_ind f' = err_ind f" and "length buf = count"
    and "fault_hit f' = fault_hit f"
    and "fault_in f = Some k \<Longrightarrow> count \<le> k"
  using assms by (auto simp: fread_def fault_hit_def Let_def min_def split: option.splits if_splits)

lemma feed_cases:
  assumes "feed lib ctx ob buf = Some (ctx1, ob1, fd)"
  shows "(buf = [] \<and> ctx1 = ctx \<and> ob1 = ob \<and> fd = [])
       \<or> (buf \<noteq> [] \<and> EVP_DigestUpdate lib ctx buf = Some ctx1
            \<and> ob1 = ob + of_nat (length buf) \<and> fd = [Digest_update buf True])"
  using assms by (auto simp: feed_def split: if_splits option.splits)

lemma feed_None:
  assumes "feed lib ctx ob buf = None"
  shows "buf \<noteq> []" and "EVP_DigestUpdate lib ctx buf = None"
  using assms by (auto simp: feed_def split: if_splits option.splits)

lemma hash_loop_cases [consumes 1, case_names update_failed eof read_error continue]:
  assumes "hash_loop lib f ctx ob = (ex, ob', evs)"
  obtains
    buf f' where "fread buf_size f = (buf, f')" and "buf \<noteq> []"
      and "EVP_DigestUpdate lib ctx buf = None" and "ex = Return 3 None" and "ob' = ob"
      and "evs = [Fread buf_size buf, Digest_update buf False, Ctx_free, Fclose]"
  | buf f' ctx1 fd where "fread buf_size f = (buf, f')"
      and "feed lib ctx ob buf = Some (ctx1, ob', fd)"
      and "length buf < buf_size" and "eof_ind f'"
      and "ex = Break ctx1" and "evs = Fread buf_size buf # fd"
  | buf f' ctx1 fd where "fread buf_size f = (buf, f')"
      and "feed lib ctx ob buf = Some (ctx1, ob', fd)"
      and "length buf < buf_size" and "\<not> eof_ind f'" and "err_ind f'"
      and "ex = Return 2 (Some ctx1)" and "evs = Fread buf_size buf # fd @ [Ctx_free, Fclose]"
  | buf f' ctx1 ob1 fd evs' where "fread buf_size f = (buf, f')"
      and "feed lib ctx ob buf = Some (ctx1, ob1, fd)"
      and "length buf = buf_size"
      and "hash_loop lib f' ctx1 ob1 = (ex, ob', evs')"
      and "evs = Fread buf_size buf # fd @ evs'"
      and "length (pending f') < length (pending f)"
proof -
  obtain buf f' where rd: "fread buf_size f = (buf, f')"
    by (cases "fread buf_size f")
  show thesis
  proof (cases "feed lib ctx ob buf")
    case None
    then show ?thesis
      using assms rd that(1) [OF rd] feed_None [OF None]
      by (simp add: hash_loop.simps [of lib f ctx ob])
  next
    case (Some t)
    obtain ctx1 ob1 fd where t: "t = (ctx1, ob1, fd)" by (cases t)
    note fd = Some [unfolded t]
    show ?thesis
    proof (cases "length buf < buf_size")
      case True
      have short: "eof_ind f' \<or> err_ind f'" using fread_short(1,2) [OF rd True] by auto
      show ?thesis
      proof (cases "eof_ind f'")
        case True
        then show ?thesis
          using assms rd fd \<open>length buf < buf_size\<close> that(2) [OF rd, of ctx1 fd]
          by (simp add: hash_loop.simps [of lib f ctx ob] feof_def)
      next
        case False
        then have "err_ind f'" using short by simp
        then show ?thesis
          using assms rd fd \<open>length buf < buf_size\<close> False that(3) [OF rd, of ctx1 fd]
          by (simp add: hash_loop.simps [of lib f ctx ob] feof_def ferror_def)
      qed
    next
      case False
      have len: "length buf = buf_size"
        using fread_full(3) [OF rd False] .
      have dec: "length (pending f') < length (pending f)"
        using fread_data(2,4) [OF rd] len by (simp add: buf_size_def)
      obtain ex2 ob2 evs2 where rec: "hash_loop lib f' ctx1 ob1 = (ex2, ob2, evs2)"
        by (cases "hash_loop lib f' ctx1 ob1")
      show ?thesis
        using assms rd fd False rec len dec that(4) [OF rd fd len, of evs2]
        by (simp add: hash_loop.simps [of lib f ctx ob])
    qed
  qed
qed

lemma reads_simps [simp]:
  "reads [] = []"
  "reads (Fread k d # es) = (if d = [] then reads es else d # reads es)"
  "reads (Digest_update d ok # es) = reads es"
  "reads (Ctx_free # es) = reads es"
  "reads (Fclose # es) = reads es"
  "reads (Fopen p ok # es) = reads es"
  "reads (Ctx_new ok # es) = reads es"
  "reads (Digest_init ok # es) = reads es"
  "reads (Digest_final m # es) = reads es"
  "reads (xs @ ys) = reads xs @ reads ys"
  by (simp_all add: reads_def)

lemma fed_simps [simp]:
  "fed [] = []"
  "fed (Fread k d # es) = fed es"
  "fed (Digest_update d ok # es) = d # fed es"
  "fed (Ctx_free # es) = fed es"
  "fed (Fclose # es) = fed es"
  "fed (Fopen p ok # es) = fed es"
  "fed (Ctx_new ok # es) = fed es"
  "fed (Digest_init ok # es) = fed es"
  "fed (Digest_final m # es) = fed es"
  "fed (xs @ ys) = fed xs @ fed ys"
  by (simp_all add: fed_def)

lemma fed_ok_simps [simp]:
  "fed_ok [] = []"
  "fed_ok (Fread k d # es) = fed_ok es"
  "fed_ok (Digest_update d ok # es) = (if ok then d # fed_ok es else fed_ok es)"
  "fed_ok (Ctx_free # es) = fed_ok es"
  "fed_ok (Fclose # es) = fed_ok es"
  "fed_ok (Fopen p ok # es) = fed_ok es"
  "fed_ok (Ctx_new ok # es) = fed_ok es"
  "fed_ok (Digest_init ok # es) = fed_ok es"
  "fed_ok (Digest_final m # es) = fed_ok es"
  "fed_ok (xs @ ys) = fed_ok xs @ fed_ok ys"
  by (simp_all add: fed_ok_def)

lemma Bex_digest_failure_simps [simp]:
  "(\<exists>e\<in>set (xs @ ys). digest_failure e) = ((\<exists>e\<in>set xs. digest_failure e) \<or> (\<exists>e\<in>set ys. digest_failure e))"
  by auto

lemma hash_loop_counter:
  assumes "hash_loop lib f ctx ob = (ex, ob', evs)"
  shows "ob' = ob + of_nat (length (concat (fed_ok evs)))"
  using assms
proof (induction "length (pending f)" arbitrary: f ctx ob evs rule: less_induct)
  case less
  from less.prems show ?case
  proof (cases rule: hash_loop_cases)
    case (update_failed buf f')
    then show ?thesis by simp
  next
    case (eof buf f' ctx1 fd)
    then show ?thesis using feed_cases [OF eof(2)] by auto
  next
    case (read_error buf f' ctx1 fd)
    then show ?thesis using feed_cases [OF read_error(2)] by auto
  next
    case (continue buf f' ctx1 ob1 fd evs')
    have "ob' = ob1 + of_nat (length (concat (fed_ok evs')))"
      using less.hyps [OF continue(6) continue(4)] .
    then show ?thesis using continue(5) feed_cases [OF continue(2)] by auto
  qed
qed

lemma hash_loop_fed_reads:
  assumes "hash_loop lib f ctx ob = (ex, ob', evs)"
  shows "fed evs = reads evs"
  using assms
proof (induction "length (pending f)" arbitrary: f ctx ob evs rule: less_induct)
  case less
  from less.prems show ?case
  proof (cases rule: hash_loop_cases)
    case (update_failed buf f')
    then show ?thesis by simp
  next
    case (eof buf f' ctx1 fd)
    then show ?thesis using feed_cases [OF eof(2)] by auto
  next
    case (read_error buf f' ctx1 fd)
    then show ?thesis using feed_cases [OF read_error(2)] by auto
  next
    case (continue buf f' ctx1 ob1 fd evs')
    have "fed evs' = reads evs'"
      using less.hyps [OF continue(6) continue(4)] .
    then show ?thesis using continue(5) feed_cases [OF continue(2)] by auto
  qed
qed

lemma hash_loop_requests:
  assumes "hash_loop lib f ctx ob = (ex, ob', evs)" and "Fread k d \<in> set evs"
  shows "k = buf_size \<and> length d \<le> buf_size"
  using assms
proof (induction "length (pending f)" arbitrary: f ctx ob evs rule: less_induct)
  case less
  from less.prems(1) show ?case
  proof (cases rule: hash_loop_cases)
    case (update_failed buf f')
    then show ?thesis using less.prems(2) fread_data(3) [OF update_failed(1)] by auto
  next
    case (eof buf f' ctx1 fd)
    then show ?thesis using less.prems(2) feed_cases [OF eof(2)] by auto
  next
    case (read_error buf f' ctx1 fd)
    then show ?thesis using less.prems(2) feed_cases [OF read_error(2)] by auto
  next
    case (continue buf f' ctx1 ob1 fd evs')
    have "Fread k d \<in> set evs' \<Longrightarrow> k = buf_size \<and> length d \<le> buf_size"
      using less.hyps [OF continue(6) continue(4)] .
    then show ?thesis
      using continue(3,5) less.prems(2) feed_cases [OF continue(2)] by auto
  qed
qed

lemma hash_loop_prefix:
  assumes "hash_loop lib f ctx ob = (ex, ob', evs)"
  shows "concat (reads evs) = take (length (concat (reads evs))) (pending f)"
  using assms
proof (induction "length (pending f)" arbitrary: f ctx ob evs rule: less_induct)
  case less
  from less.prems show ?case
  proof (cases rule: hash_loop_cases)
    case (update_failed buf f')
    then show ?thesis using fread_data(1) [OF update_failed(1)] by simp
  next
    case (eof buf f' ctx1 fd)
    then show ?thesis
      using feed_cases [OF eof(2)] fread_data(1) [OF eof(1)] by auto
  next
    case (read_error buf f' ctx1 fd)
    then show ?thesis
      using feed_cases [OF read_error(2)] fread_data(1) [OF read_error(1)] by auto
  next
    case (continue buf f' ctx1 ob1 fd evs')
    let ?rest = "concat (reads evs')"
    have ih: "?rest = take (length ?rest) (pending f')"
      using less.hyps [OF continue(6) continue(4)] .
    have ne: "buf \<noteq> []" using continue(3) by (auto simp: buf_size_def)
    have cc: "concat (reads evs) = buf @ ?rest"
      using continue(5) ne feed_cases [OF continue(2)] by auto
    have "buf @ ?rest
        = take (length buf) (pending f) @ take (length ?rest) (drop (length buf) (pending f))"
      using ih fread_data(1,2) [OF continue(1)] by simp
    also have "\<dots> = take (length buf + length ?rest) (pending f)"
      by (simp add: take_add)
    finally have e: "buf @ ?rest = take (length buf + length ?rest) (pending f)" .
    have l: "length (buf @ ?rest) = length buf + length ?rest" by simp
    show ?thesis unfolding cc l by (rule e)
  qed
qed

lemma hash_loop_Break:
  assumes "hash_loop lib f ctx ob = (Break ctx', ob', evs)" and "\<not> eof_ind f"
  shows "evp_updates lib ctx (reads evs) = Some ctx' \<and> concat (reads evs) = pending f
       \<and> fed_ok evs = reads evs \<and> \<not> fault_hit f
       \<and> Ctx_free \<notin> set evs \<and> Fclose \<notin> set evs \<and> (\<forall>e\<in>set evs. \<not> digest_failure e)"
  using assms
proof (induction "length (pending f)" arbitrary: f ctx ob evs rule: less_induct)
  case less
  from less.prems(1) show ?case
  proof (cases rule: hash_loop_cases)
    case (update_failed buf f')
    then show ?thesis by simp
  next
    case (eof buf f' ctx1 fd)
    have nohit: "\<not> fault_hit f"
      using fread_short(1) [OF eof(1,3)] eof(4) less.prems(2) by simp
    then have "buf = pending f"
      using fread_short(4) [OF eof(1,3)] by simp
    then show ?thesis
      using eof(5,6) nohit feed_cases [OF eof(2)] by auto
  next
    case (read_error buf f' ctx1 fd)
    then show ?thesis by simp
  next
    case (continue buf f' ctx1 ob1 fd evs')
    have ne: "buf \<noteq> []" using continue(3) by (auto simp: buf_size_def)
    have full: "\<not> length buf < buf_size" using continue(3) by simp
    have eof': "\<not> eof_ind f'"
      using fread_full(1) [OF continue(1) full] less.prems(2) by simp
    have ih: "evp_updates lib ctx1 (reads evs') = Some ctx' \<and> concat (reads evs') = pending f'
       \<and> fed_ok evs' = reads evs' \<and> \<not> fault_hit f'
       \<and> Ctx_free \<notin> set evs' \<and> Fclose \<notin> set evs' \<and> (\<forall>e\<in>set evs'. \<not> digest_failure e)"
      using less.hyps [OF continue(6) continue(4) eof'] .
    have fd: "EVP_DigestUpdate lib ctx buf = Some ctx1" "fd = [Digest_update buf True]"
      using feed_cases [OF continue(2)] ne by auto
    have "buf @ pending f' = pending f"
      using fread_data(1,2) [OF continue(1)] by (metis append_take_drop_id)
    then show ?thesis
      using ih fd ne continue(5) fread_full(4) [OF continue(1) full] by simp
  qed
qed

lemma hash_loop_Return_code:
  assumes "hash_loop lib f ctx ob = (Return code released, ob', evs)"
  shows "(code = 2 \<or> code = 3) \<and> (code = 3) = (\<exists>e\<in>set evs. digest_failure e)
       \<and> (\<exists>pre. evs = pre @ [Ctx_free, Fclose] \<and> Ctx_free \<notin> set pre \<and> Fclose \<notin> set pre)"
  using assms
proof (induction "length (pending f)" arbitrary: f ctx ob evs rule: less_induct)
  case less
  from less.prems(1) show ?case
  proof (cases rule: hash_loop_cases)
    case (update_failed buf f')
    have "evs = [Fread buf_size buf, Digest_update buf False] @ [Ctx_free, Fclose]"
      using update_failed(6) by simp
    then show ?thesis using update_failed(4) by force
  next
    case (eof buf f' ctx1 fd)
    then show ?thesis by simp
  next
    case (read_error buf f' ctx1 fd)
    have "evs = (Fread buf_size buf # fd) @ [Ctx_free, Fclose]"
      using read_error(7) by simp
    moreover have "Ctx_free \<notin> set (Fread buf_size buf # fd)" "Fclose \<notin> set (Fread buf_size buf # fd)"
      "\<forall>e\<in>set (Fread buf_size buf # fd). \<not> digest_failure e"
      using feed_cases [OF read_error(2)] by auto
    ultimately show ?thesis using read_error(6) by force
  next
    case (continue buf f' ctx1 ob1 fd evs')
    have ih: "(code = 2 \<or> code = 3) \<and> (code = 3) = (\<exists>e\<in>set evs'. digest_failure e)
       \<and> (\<exists>pre. evs' = pre @ [Ctx_free, Fclose] \<and> Ctx_free \<notin> set pre \<and> Fclose \<notin> set pre)"
      using less.hyps [OF continue(6) continue(4)] .
    then obtain pre where pre: "evs' = pre @ [Ctx_free, Fclose]" "Ctx_free \<notin> set pre" "Fclose \<notin> set pre"
      by blast
    have fdp: "Ctx_free \<notin> set (Fread buf_size buf # fd)" "Fclose \<notin> set (Fread buf_size buf # fd)"
      "\<forall>e\<in>set (Fread buf_size buf # fd). \<not> digest_failure e"
      using feed_cases [OF continue(2)] by auto
    have "evs = (Fread buf_size buf # fd @ pre) @ [Ctx_free, Fclose]"
      using continue(5) pre(1) by simp
    moreover have "Ctx_free \<notin> set (Fread buf_size buf # fd @ pre)" "Fclose \<notin> set (Fread buf_size buf # fd @ pre)"
      using fdp pre by auto
    moreover have "(\<exists>e\<in>set evs. digest_failure e) = (\<exists>e\<in>set evs'. digest_failure e)"
      using continue(5) fdp(3) by auto
    ultimately show ?thesis using ih by blast
  qed
qed

lemma hash_loop_Return_2:
  assumes "hash_loop lib f ctx ob = (Return 2 released, ob', evs)"
  shows "\<exists>k. fault_in f = Some k \<and> k \<le> length (pending f) \<and> concat (fed_ok evs) = take k (pending f)"
  using assms
proof (induction "length (pending f)" arbitrary: f ctx ob evs rule: less_induct)
  case less
  from less.prems(1) show ?case
  proof (cases rule: hash_loop_cases)
    case (update_failed buf f')
    then show ?thesis by simp
  next
    case (eof buf f' ctx1 fd)
    then show ?thesis by simp
  next
    case (read_error buf f' ctx1 fd)
    have hit: "fault_hit f"
      using fread_short(1) [OF read_error(1,3)] read_error(4) by simp
    then have k: "fault_in f = Some (length buf)"
      using fread_short(3) [OF read_error(1,3)] by simp
    have "concat (fed_ok evs) = buf"
      using read_error(7) feed_cases [OF read_error(2)] by auto
    then have "concat (fed_ok evs) = take (length buf) (pending f)"
      using fread_data(1) [OF read_error(1)] by simp
    then show ?thesis using k fread_data(4) [OF read_error(1)] by simp
  next
    case (continue buf f' ctx1 ob1 fd evs')
    have ne: "buf \<noteq> []" using continue(3) by (auto simp: buf_size_def)
    have full: "\<not> length buf < buf_size" using continue(3) by simp
    obtain k' where k': "fault_in f' = Some k'" "k' \<le> length (pending f')"
        "concat (fed_ok evs') = take k' (pending f')"
      using less.hyps [OF continue(6) continue(4)] by blast
    obtain k where k: "fault_in f = Some k" "k' = k - length buf"
      using fread_data(5) [OF continue(1)] k'(1) by (cases "fault_in f") auto
    have le: "length buf \<le> k"
      using fread_full(5) [OF continue(1) full k(1)] continue(3) by simp
    have "concat (fed_ok evs) = buf @ take k' (pending f')"
      using continue(5) k'(3) ne feed_cases [OF continue(2)] by auto
    also have "\<dots> = take (length buf) (pending f) @ take k' (drop (length buf) (pending f))"
      using fread_data(1,2) [OF continue(1)] by simp
    also have "\<dots> = take (length buf + k') (pending f)"
      by (simp add: take_add)
    also have "length buf + k' = k" using le k(2) by simp
    finally have "concat (fed_ok evs) = take k (pending f)" .
    moreover have "k \<le> length (pending f)"
      using k'(2) k(2) le fread_data(2,4) [OF continue(1)] by simp
    ultimately show ?thesis using k(1) by simp
  qed
qed

lemma hash_loop_Return_2_context:
  assumes "hash_loop lib f ctx ob = (Return 2 released, ob', evs)"
  shows "\<exists>c. released = Some c \<and> evp_updates lib ctx (reads evs) = Some c
           \<and> fed_ok evs = reads evs"
  using assms
proof (induction "length (pending f)" arbitrary: f ctx ob evs rule: less_induct)
  case less
  from less.prems(1) show ?case
  proof (cases rule: hash_loop_cases)
    case (update_failed buf f')
    then show ?thesis by simp
  next
    case (eof buf f' ctx1 fd)
    then show ?thesis by simp
  next
    case (read_error buf f' ctx1 fd)
    then show ?thesis using feed_cases [OF read_error(2)] by auto
  next
    case (continue buf f' ctx1 ob1 fd evs')
    have ne: "buf \<noteq> []" using continue(3) by (auto simp: buf_size_def)
    obtain c where c: "released = Some c" "evp_updates lib ctx1 (reads evs') = Some c"
        "fed_ok evs' = reads evs'"
      using less.hyps [OF continue(6) continue(4)] by blast
    have fd: "EVP_DigestUpdate lib ctx buf = Some ctx1" "fd = [Digest_update buf True]"
      using feed_cases [OF continue(2)] ne by auto
    have "evp_updates lib ctx (reads evs) = Some c" "fed_ok evs = reads evs"
      using c(2,3) fd ne continue(5) by simp_all
    then show ?thesis using c(1) by simp
  qed
qed

lemma hash_loop_at_end:
  assumes "pending f = []" and "fault_in f \<noteq> Some 0"
  shows "hash_loop lib f ctx ob = (Break ctx, ob, [Fread buf_size []])"
proof -
  have "0 < buf_size" by (simp add: buf_size_def)
  moreover obtain f' where "fread buf_size f = ([], f')" "eof_ind f'"
    using assms \<open>0 < buf_size\<close>
    by (cases "fault_in f") (auto simp: fread_def Let_def)
  ultimately show ?thesis
    by (subst hash_loop.simps) (simp add: feed_def feof_def)
qed

section \<open>The hasher, case by case\<close>

lemma fopen_Some:
  assumes "fopen fs p = Some f"
  obtains F where "fs p = Some F" and "pending f = content F" and "fault_in f = read_fault F"
    and "\<not> eof_ind f" and "\<not> err_ind f"
  using assms by (auto simp: fopen_def split: option.splits)

lemma fopen_None: "fopen fs p = None \<longleftrightarrow> fs p = None"
  by (simp add: fopen_def split: option.splits)

lemma sfd_sha256_file_cases
  [case_names null open_failed ctx_failed init_failed loop_return final_failed bad_length success]:
  obtains
    "path = None \<or> out_hash = None \<or> out_bytes = None"
      and "sfd_sha256_file fs lib path out_hash out_bytes
           = \<lparr>rc = 1, hash_after = out_hash, bytes_after = out_bytes, calls = []\<rparr>"
  | p h b where "path = Some p" and "out_hash = Some h" and "out_bytes = Some b"
      and "fs p = None"
      and "sfd_sha256_file fs lib path out_hash out_bytes
           = \<lparr>rc = 2, hash_after = Some h, bytes_after = Some 0, calls = [Fopen p False]\<rparr>"
  | p h b f where "path = Some p" and "out_hash = Some h" and "out_bytes = Some b"
      and "fopen fs p = Some f" and "EVP_MD_CTX_new lib = None"
      and "sfd_sha256_file fs lib path out_hash out_bytes
           = \<lparr>rc = 3, hash_after = Some h, bytes_after = Some 0,
              calls = [Fopen p True, Ctx_new False, Fclose]\<rparr>"
  | p h b f ctx0 where "path = Some p" and "out_hash = Some h" and "out_bytes = Some b"
      and "fopen fs p = Some f" and "EVP_MD_CTX_new lib = Some ctx0"
      and "EVP_DigestInit_ex lib ctx0 = None"
      and "sfd_sha256_file fs lib path out_hash out_bytes
           = \<lparr>rc = 3, hash_after = Some h, bytes_after = Some 0,
              calls = [Fopen p True, Ctx_new True, Digest_init False, Ctx_free, Fclose]\<rparr>"
  | p h b f ctx0 ctx code n evs released where "path = Some p" and "out_hash = Some h"
      and "out_bytes = Some b"
      and "fopen fs p = Some f" and "EVP_MD_CTX_new lib = Some ctx0"
      and "EVP_DigestInit_ex lib ctx0 = Some ctx"
      and "hash_loop lib f ctx 0 = (Return code released, n, evs)"
      and "sfd_sha256_file fs lib path out_hash out_bytes
           = \<lparr>rc = code, hash_after = Some h, bytes_after = Some n,
              calls = [Fopen p True, Ctx_new True, Digest_init True] @ evs\<rparr>"
  | p h b f ctx0 ctx ctx' n evs where "path = Some p" and "out_hash = Some h"
      and "out_bytes = Some b"
      and "fopen fs p = Some f" and "EVP_MD_CTX_new lib = Some ctx0"
      and "EVP_DigestInit_ex lib ctx0 = Some ctx"
      and "hash_loop lib f ctx 0 = (Break ctx', n, evs)"
      and "EVP_DigestFinal_ex lib ctx' = None"
      and "sfd_sha256_file fs lib path out_hash out_bytes
           = \<lparr>rc = 3, hash_after = Some h, bytes_after = Some n,
              calls = [Fopen p True, Ctx_new True, Digest_init True] @ evs
                      @ [Digest_final None, Ctx_free, Fclose]\<rparr>"
  | p h b f ctx0 ctx ctx' n evs md where "path = Some p" and "out_hash = Some h"
      and "out_bytes = Some b"
      and "fopen fs p = Some f" and "EVP_MD_CTX_new lib = Some ctx0"
      and "EVP_DigestInit_ex lib ctx0 = Some ctx"
      and "hash_loop lib f ctx 0 = (Break ctx', n, evs)"
      and "EVP_DigestFinal_ex lib ctx' = Some md" and "length md \<noteq> 32"
      and "sfd_sha256_file fs lib path out_hash out_bytes
           = \<lparr>rc = 3, hash_after = Some h, bytes_after = Some n,
              calls = [Fopen p True, Ctx_new True, Digest_init True] @ evs
                      @ [Digest_final (Some (length md)), Ctx_free, Fclose]\<rparr>"
  | p h b f ctx0 ctx ctx' n evs md where "path = Some p" and "out_hash = Some h"
      and "out_bytes = Some b"
      and "fopen fs p = Some f" and "EVP_MD_CTX_new lib = Some ctx0"
      and "EVP_DigestInit_ex lib ctx0 = Some ctx"
      and "hash_loop lib f ctx 0 = (Break ctx', n, evs)"
      and "EVP_DigestFinal_ex lib ctx' = Some md" and "length md = 32"
      and "sfd_sha256_file fs lib path out_hash out_bytes
           = \<lparr>rc = 0, hash_after = Some (md @ drop 32 h), bytes_after = Some n,
              calls = [Fopen p True, Ctx_new True, Digest_init True] @ evs
                      @ [Digest_final (Some 32), Ctx_free, Fclose]\<rparr>"
proof (cases "path = None \<or> out_hash = None \<or> out_bytes = None")
  case True
  then have "sfd_sha256_file fs lib path out_hash out_bytes
           = \<lparr>rc = 1, hash_after = out_hash, bytes_after = out_bytes, calls = []\<rparr>"
    by (auto simp: sfd_sha256_file_def split: option.splits)
  with True show ?thesis by (rule that(1))
next
  case False
  then obtain p h b where args: "path = Some p" "out_hash = Some h" "out_bytes = Some b"
    by auto
  show ?thesis
  proof (cases "fopen fs p")
    case None
    then have "fs p = None" by (simp add: fopen_None)
    then show ?thesis
      using args None that(2) [OF args] by (simp add: sfd_sha256_file_def)
  next
    case f: (Some f)
    show ?thesis
    proof (cases "EVP_MD_CTX_new lib")
      case None
      then show ?thesis
        using args f that(3) [OF args f] by (simp add: sfd_sha256_file_def)
    next
      case c0: (Some ctx0)
      show ?thesis
      proof (cases "EVP_DigestInit_ex lib ctx0")
        case None
        then show ?thesis
          using args f c0 that(4) [OF args f c0] by (simp add: sfd_sha256_file_def)
      next
        case c: (Some ctx)
        obtain ex n evs where lp: "hash_loop lib f ctx 0 = (ex, n, evs)"
          by (cases "hash_loop lib f ctx 0")
        show ?thesis
        proof (cases ex)
          case (Return code released)
          then show ?thesis
            using args f c0 c lp that(5) [OF args f c0 c]
            by (simp add: sfd_sha256_file_def)
        next
          case (Break ctx')
          note lp' = lp [unfolded Break]
          show ?thesis
          proof (cases "EVP_DigestFinal_ex lib ctx'")
            case None
            then show ?thesis
              using args f c0 c lp' that(6) [OF args f c0 c lp']
              by (simp add: sfd_sha256_file_def)
          next
            case md: (Some md)
            show ?thesis
            proof (cases "length md = 32")
              case False
              then show ?thesis
                using args f c0 c lp' md that(7) [OF args f c0 c lp' md]
                by (simp add: sfd_sha256_file_def SFD_SHA256_LEN_def)
            next
              case True
              then show ?thesis
                using args f c0 c lp' md that(8) [OF args f c0 c lp' md]
                by (simp add: sfd_sha256_file_def SFD_SHA256_LEN_def memcpy_def)
            qed
          qed
        qed
      qed
    qed
  qed
qed

lemma sfd_sha256_file_success:
  assumes "rc (sfd_sha256_file fs lib path out_hash out_bytes) = 0"
  obtains p h b f ctx0 ctx ctx' n evs md where "path = Some p" and "out_hash = Some h"
      and "out_bytes = Some b"
      and "fopen fs p = Some f" and "EVP_MD_CTX_new lib = Some ctx0"
      and "EVP_DigestInit_ex lib ctx0 = Some ctx"
      and "hash_loop lib f ctx 0 = (Break ctx', n, evs)"
      and "EVP_DigestFinal_ex lib ctx' = Some md" and "length md = 32"
      and "sfd_sha256_file fs lib path out_hash out_bytes
           = \<lparr>rc = 0, hash_after = Some (md @ drop 32 h), bytes_after = Some n,
              calls = [Fopen p True, Ctx_new True, Digest_init True] @ evs
                      @ [Digest_final (Some 32), Ctx_free, Fclose]\<rparr>"
proof (cases rule: sfd_sha256_file_cases [of path out_hash out_bytes fs lib])
  case (loop_return p h b f ctx0 ctx code n evs)
  have "code = 0" using assms unfolding loop_return(8) by simp
  then show ?thesis using hash_loop_Return_code [OF loop_return(7)] by simp
next
  case (success p h b f ctx0 ctx ctx' n evs md)
  then show ?thesis by (rule that)
qed (use assms in simp_all)

lemma sfd_sha256_file_null:
  assumes "path = None \<or> out_hash = None \<or> out_bytes = None"
  shows "sfd_sha256_file fs lib path out_hash out_bytes
           = \<lparr>rc = 1, hash_after = out_hash, bytes_after = out_bytes, calls = []\<rparr>"
  using assms by (auto simp: sfd_sha256_file_def split: option.splits)

lemma sfd_sha256_file_rc:
  "rc (sfd_sha256_file fs lib path out_hash out_bytes) \<in> {0, 1, 2, 3}"
proof (cases rule: sfd_sha256_file_cases [of path out_hash out_bytes fs lib])
  case (loop_return p h b f ctx0 ctx code n evs)
  then show ?thesis using hash_loop_Return_code [OF loop_return(7)] by auto
qed simp_all

lemma sfd_sha256_file_rc_1:
  assumes "rc (sfd_sha256_file fs lib path out_hash out_bytes) = 1"
  shows "path = None \<or> out_hash = None \<or> out_bytes = None"
proof (cases rule: sfd_sha256_file_cases [of path out_hash out_bytes fs lib])
  case (loop_return p h b f ctx0 ctx code n evs)
  then show ?thesis using assms hash_loop_Return_code [OF loop_return(7)] by auto
qed (use assms in simp_all)

lemma sfd_sha256_file_failure_keeps_hash:
  assumes "rc (sfd_sha256_file fs lib path out_hash out_bytes) \<noteq> 0"
  shows "hash_after (sfd_sha256_file fs lib path out_hash out_bytes) = out_hash"
  by (cases rule: sfd_sha256_file_cases [of path out_hash out_bytes fs lib])
     (use assms in simp_all)

lemma demo_fault_run:
  "sfd_sha256_file (one_file ''f'' \<lparr>content = [1, 2, 3], read_fault = Some 2\<rparr>) evp_reference
       (Some ''f'') (Some []) (Some 0)
     = \<lparr>rc = 2, hash_after = Some [], bytes_after = Some 2,
        calls = [Fopen ''f'' True, Ctx_new True, Digest_init True, Fread 65536 [1, 2],
                 Digest_update [1, 2] True, Ctx_free, Fclose]\<rparr>"
proof -
  have "hash_loop evp_reference
          \<lparr>pending = [1, 2, 3], fault_in = Some 2, eof_ind = False, err_ind = False\<rparr> [] 0
        = (Return 2 (Some [1, 2]), 2,
           [Fread 65536 [1, 2], Digest_update [1, 2] True, Ctx_free, Fclose])"
    by (subst hash_loop.simps)
       (simp add: fread_def feed_def buf_size_def feof_def ferror_def evp_reference_def)
  then show ?thesis
    by (simp add: sfd_sha256_file_def one_file_def fopen_def evp_reference_def)
qed

lemma demo_success_run:
  "sfd_sha256_file (one_file ''f'' \<lparr>content = [0x61], read_fault = None\<rparr>) evp_reference
       (Some ''f'') (Some (replicate 32 0)) (Some 0)
     = \<lparr>rc = 0, hash_after = Some (sha256 [0x61]), bytes_after = Some 1,
        calls = [Fopen ''f'' True, Ctx_new True, Digest_init True, Fread 65536 [0x61],
                 Digest_update [0x61] True, Digest_final (Some 32), Ctx_free, Fclose]\<rparr>"
proof -
  have "hash_loop evp_reference
          \<lparr>pending = [0x61], fault_in = None, eof_ind = False, err_ind = False\<rparr> [] 0
        = (Break [0x61], 1, [Fread 65536 [0x61], Digest_update [0x61] True])"
    by (subst hash_loop.simps)
       (simp add: fread_def feed_def buf_size_def feof_def ferror_def evp_reference_def)
  then show ?thesis
    by (simp add: sfd_sha256_file_def one_file_def fopen_def evp_reference_def
        length_sha256 SFD_SHA256_LEN_def memcpy_def)
qed

section \<open>The driver, case by case\<close>

lemma report_failure:
  assumes "code \<noteq> 0"
  shows "report code hash bytes hex_buf =
           (if code = 2
            then \<lparr>exit_code = 2, stdout = [], stderr = ''File I/O error'' @ [CHR 0x0A]\<rparr>
            else \<lparr>exit_code = 3, stdout = [], stderr = ''Hashing error'' @ [CHR 0x0A]\<rparr>)"
  using assms by (simp add: report_def)

lemma report_success_exit: "exit_code (report 0 hash bytes hex_buf) = 0"
  by (simp add: report_def Let_def)

lemma report_exit_zero: "exit_code (report code hash bytes hex_buf) = 0 \<longleftrightarrow> code = 0"
  by (simp add: report_def Let_def)

lemma main_usage:
  assumes "length args \<noteq> 1"
  shows "main e prog args = \<lparr>exit_code = 1, stdout = [], stderr = usage prog\<rparr>"
  using assms by (simp add: main_def)

lemma main_run:
  assumes "length args = 1"
  shows "main e prog args =
           report (rc (hasher_call e args))
             (case hash_after (hasher_call e args) of Some h \<Rightarrow> h
              | None \<Rightarrow> map (uninit_hash e) [0..<SFD_SHA256_LEN])
             (case bytes_after (hasher_call e args) of Some n \<Rightarrow> n | None \<Rightarrow> 0)
             (map (uninit_hex e) [0..<SFD_SHA256_LEN * 2 + 1])"
  using assms by (simp add: main_def Let_def)

lemma hasher_call_rc: "rc (hasher_call e args) \<in> {0, 2, 3}"
  using sfd_sha256_file_rc [of "files e" "crypto e" "Some (args ! 0)"
      "Some (map (uninit_hash e) [0..<SFD_SHA256_LEN])" "Some 0"]
    sfd_sha256_file_rc_1 [of "files e" "crypto e" "Some (args ! 0)"
      "Some (map (uninit_hash e) [0..<SFD_SHA256_LEN])" "Some 0"]
  by auto

lemma main_success:
  assumes "exit_code (main e prog args) = 0"
  obtains digest n where "length args = 1"
    and "rc (hasher_call e args) = 0"
    and "hash_after (hasher_call e args) = Some digest"
    and "bytes_after (hasher_call e args) = Some n"
    and "length digest = 32"
    and "main e prog args =
           \<lparr>exit_code = 0,
            stdout = ''{\"algorithm\":\"sha256\",\"hash\":\"'' @ concat (map hex_pair digest)
                       @ ''\",\"bytes\":'' @ decimal (unat n) @ ''}'' @ [CHR 0x0A],
            stderr = []\<rparr>"
proof -
  have one: "length args = 1"
    using assms by (cases "length args = 1") (simp_all add: main_usage)
  have ok: "rc (hasher_call e args) = 0"
    using assms unfolding main_run [OF one] by (simp add: report_exit_zero)
  then obtain p h b f ctx0 ctx ctx' n evs md where
    h: "Some (map (uninit_hash e) [0..<SFD_SHA256_LEN]) = Some h"
    and len: "length md = 32"
    and res: "hasher_call e args
           = \<lparr>rc = 0, hash_after = Some (md @ drop 32 h), bytes_after = Some n,
              calls = [Fopen p True, Ctx_new True, Digest_init True] @ evs
                      @ [Digest_final (Some 32), Ctx_free, Fclose]\<rparr>"
    by (rule sfd_sha256_file_success)
  have "length h = 32" using h by (auto simp: SFD_SHA256_LEN_def)
  then have res': "hasher_call e args
           = \<lparr>rc = 0, hash_after = Some md, bytes_after = Some n,
              calls = [Fopen p True, Ctx_new True, Digest_init True] @ evs
                      @ [Digest_final (Some 32), Ctx_free, Fclose]\<rparr>"
    using res by simp
  have hx: "c_string (sfd_hex_encode_lower md SFD_SHA256_LEN
              (map (uninit_hex e) [0..<SFD_SHA256_LEN * 2 + 1])) = concat (map hex_pair md)"
    by (rule c_string_hex_encode) (simp_all add: len SFD_SHA256_LEN_def)
  have "main e prog args =
           \<lparr>exit_code = 0,
            stdout = ''{\"algorithm\":\"sha256\",\"hash\":\"'' @ concat (map hex_pair md)
                       @ ''\",\"bytes\":'' @ decimal (unat n) @ ''}'' @ [CHR 0x0A],
            stderr = []\<rparr>"
    unfolding main_run [OF one] res' hash_result.simps option.case report_def Let_def hx
    by simp
  then show ?thesis
    using that [OF one ok _ _ len] res' by simp
qed

lemma demo_zero_digest_run:
  "main (demo_env (one_file ''f'' \<lparr>content = [], read_fault = None\<rparr>)
          (evp_scripted True True True True 32)) ''sfd'' [''f'']
     = \<lparr>exit_code = 0,
        stdout = ''{\"algorithm\":\"sha256\",\"hash\":\"'' @ concat (map hex_pair (replicate 32 0))
                       @ ''\",\"bytes\":'' @ decimal (unat (0 :: u64)) @ ''}'' @ [CHR 0x0A],
        stderr = []\<rparr>"
proof -
  let ?e = "demo_env (one_file ''f'' \<lparr>content = [], read_fault = None\<rparr>)
          (evp_scripted True True True True 32)"
  have call: "hasher_call ?e [''f'']
     = \<lparr>rc = 0, hash_after = Some (replicate 32 0), bytes_after = Some 0,
        calls = [Fopen ''f'' True, Ctx_new True, Digest_init True, Fread buf_size [],
                 Digest_final (Some 32), Ctx_free, Fclose]\<rparr>"
    by (simp add: demo_env_def sfd_sha256_file_def one_file_def fopen_def evp_scripted_def
        hash_loop_at_end SFD_SHA256_LEN_def memcpy_def)
  have hx: "c_string (sfd_hex_encode_lower (replicate 32 0) SFD_SHA256_LEN
              (map (uninit_hex ?e) [0..<SFD_SHA256_LEN * 2 + 1]))
            = concat (map hex_pair (replicate 32 0))"
    by (rule c_string_hex_encode) (simp_all add: SFD_SHA256_LEN_def)
  have one: "length [''f''] = 1" by simp
  show ?thesis
    unfolding main_run [OF one] call hash_result.simps option.case report_def Let_def hx
    by simp
qed

section \<open>Properties of the hasher\<close>

text \<open>
  Claim C1. Let the digest library compute SHA-256, and let \<open>F\<close> be the file at the
  path given, of fewer than \<open>2^64\<close> bytes. If the hasher returns 0, then the counter
  it leaves in \<open>out_bytes\<close> is the size of \<open>F\<close> in bytes, and the 32 bytes it stores
  at the start of \<open>out_hash\<close> are the SHA-256 digest of the bytes of \<open>F\<close>, taken in
  the order of the file.
\<close>

theorem sfd_sha256_file_correct:
  assumes lib: "evp_is_sha256 lib"
    and F: "fs p = Some F"
    and size: "length (content F) < 2 ^ 64"
    and r: "sfd_sha256_file fs lib (Some p) (Some h) (Some b) = r"
    and ok: "rc r = 0"
  shows "(\<exists>n. bytes_after r = Some n \<and> unat n = length (content F))
       \<and> hash_after r = Some (sha256 (content F) @ drop 32 h)
       \<and> length (sha256 (content F)) = 32"
proof -
  have "rc (sfd_sha256_file fs lib (Some p) (Some h) (Some b)) = 0"
    using r ok by simp
  then obtain p' h' b' f ctx0 ctx ctx' n evs md where
    args: "Some p = Some p'" "Some h = Some h'"
    and f: "fopen fs p' = Some f"
    and c0: "EVP_MD_CTX_new lib = Some ctx0"
    and c: "EVP_DigestInit_ex lib ctx0 = Some ctx"
    and lp: "hash_loop lib f ctx 0 = (Break ctx', n, evs)"
    and fin: "EVP_DigestFinal_ex lib ctx' = Some md"
    and len: "length md = 32"
    and res: "sfd_sha256_file fs lib (Some p) (Some h) (Some b)
           = \<lparr>rc = 0, hash_after = Some (md @ drop 32 h'), bytes_after = Some n,
              calls = [Fopen p' True, Ctx_new True, Digest_init True] @ evs
                      @ [Digest_final (Some 32), Ctx_free, Fclose]\<rparr>"
    by (rule sfd_sha256_file_success)
  have p': "p' = p" "h' = h" using args by simp_all
  have st: "pending f = content F" "\<not> eof_ind f"
    using f F unfolding p' by (auto elim: fopen_Some)
  note brk = hash_loop_Break [OF lp st(2)]
  have "evp_digest lib (reads evs) = Some md"
    using c0 c fin brk by (simp add: evp_digest_def)
  then have "md = sha256 (concat (reads evs))"
    using lib by (simp add: evp_is_sha256_def)
  then have md: "md = sha256 (content F)"
    using brk st(1) by simp
  have "n = of_nat (length (concat (fed_ok evs)))"
    using hash_loop_counter [OF lp] by simp
  then have n: "n = of_nat (length (content F))"
    using brk st(1) by simp
  have un: "unat n = length (content F)"
    unfolding n using size by (simp add: unat_of_nat)
  have "bytes_after r = Some n" and "hash_after r = Some (md @ drop 32 h)"
    unfolding r [symmetric] res p' by simp_all
  then show ?thesis using un md len by simp
qed

theorem sfd_sha256_file_correct_witness:
  "evp_is_sha256 evp_reference
   \<and> one_file ''f'' \<lparr>content = [0x61], read_fault = None\<rparr> ''f''
       = Some \<lparr>content = [0x61], read_fault = None\<rparr>
   \<and> length (content \<lparr>content = [0x61 :: byte], read_fault = None\<rparr>) < 2 ^ 64
   \<and> rc (sfd_sha256_file (one_file ''f'' \<lparr>content = [0x61], read_fault = None\<rparr>) evp_reference
         (Some ''f'') (Some (replicate 32 0)) (Some 0)) = 0
   \<and> bytes_after (sfd_sha256_file (one_file ''f'' \<lparr>content = [0x61], read_fault = None\<rparr>)
         evp_reference (Some ''f'') (Some (replicate 32 0)) (Some 0)) = Some 1
   \<and> hash_after (sfd_sha256_file (one_file ''f'' \<lparr>content = [0x61], read_fault = None\<rparr>)
         evp_reference (Some ''f'') (Some (replicate 32 0)) (Some 0)) = Some (sha256 [0x61])"
proof -
  let ?F = "\<lparr>content = [0x61 :: byte], read_fault = None\<rparr>"
  have F: "one_file ''f'' ?F ''f'' = Some ?F" by (simp add: one_file_def)
  have size: "length (content ?F) < 2 ^ 64" by simp
  have ok: "rc (sfd_sha256_file (one_file ''f'' ?F) evp_reference
         (Some ''f'') (Some (replicate 32 0)) (Some 0)) = 0"
    by (simp add: demo_success_run)
  show ?thesis
    using sfd_sha256_file_correct [OF evp_reference_is_sha256 F size refl ok]
      evp_reference_is_sha256 F ok
    by (simp add: demo_success_run)
qed

lemma read_loop_calls:
  assumes r: "sfd_sha256_file fs lib path out_hash out_bytes = r"
  shows "(\<forall>k d. Fread k d \<in> set (calls r) \<longrightarrow> k = 65536 \<and> length d \<le> 65536)
       \<and> fed (calls r) = reads (calls r)
       \<and> (\<forall>p F. path = Some p \<and> fs p = Some F \<longrightarrow>
             concat (reads (calls r)) = take (length (concat (reads (calls r)))) (content F))
       \<and> (path \<noteq> None \<and> out_hash \<noteq> None \<and> out_bytes \<noteq> None \<longrightarrow>
             bytes_after r = Some (of_nat (length (concat (fed_ok (calls r))))))
       \<and> (\<forall>p F. path = Some p \<and> fs p = Some F \<and> rc r = 2 \<longrightarrow>
             (\<exists>k. read_fault F = Some k \<and> k \<le> length (content F)
                  \<and> concat (fed_ok (calls r)) = take k (content F)
                  \<and> bytes_after r = Some (of_nat k)))"
proof (cases rule: sfd_sha256_file_cases [of path out_hash out_bytes fs lib])
  case null
  have "r = \<lparr>rc = 1, hash_after = out_hash, bytes_after = out_bytes, calls = []\<rparr>"
    using r null(2) by simp
  then show ?thesis using null(1) by auto
next
  case (open_failed p h b)
  have "r = \<lparr>rc = 2, hash_after = Some h, bytes_after = Some 0, calls = [Fopen p False]\<rparr>"
    using r open_failed(5) by simp
  then show ?thesis using open_failed(1,4) by simp
next
  case (ctx_failed p h b f)
  have "r = \<lparr>rc = 3, hash_after = Some h, bytes_after = Some 0,
              calls = [Fopen p True, Ctx_new False, Fclose]\<rparr>"
    using r ctx_failed(6) by simp
  then show ?thesis by simp
next
  case (init_failed p h b f ctx0)
  have "r = \<lparr>rc = 3, hash_after = Some h, bytes_after = Some 0,
              calls = [Fopen p True, Ctx_new True, Digest_init False, Ctx_free, Fclose]\<rparr>"
    using r init_failed(7) by simp
  then show ?thesis by simp
next
  case (loop_return p h b f ctx0 ctx code n evs released)
  note lp = loop_return(7)
  obtain F where F: "fs p = Some F" "pending f = content F" "fault_in f = read_fault F"
    using loop_return(4) by (rule fopen_Some)
  have c: "calls r = [Fopen p True, Ctx_new True, Digest_init True] @ evs"
    and b: "bytes_after r = Some n" and rc: "rc r = code"
    using loop_return(8) r by auto
  have 1: "\<forall>k d. Fread k d \<in> set (calls r) \<longrightarrow> k = 65536 \<and> length d \<le> 65536"
    using hash_loop_requests [OF lp] c by (auto simp: buf_size_def)
  have 2: "fed (calls r) = reads (calls r)"
    using hash_loop_fed_reads [OF lp] c by simp
  have 3: "concat (reads (calls r)) = take (length (concat (reads (calls r)))) (content F)"
    using hash_loop_prefix [OF lp] c F(2) by simp
  have 4: "bytes_after r = Some (of_nat (length (concat (fed_ok (calls r)))))"
    using hash_loop_counter [OF lp] c b by simp
  have 5: "\<exists>k. read_fault F = Some k \<and> k \<le> length (content F)
                  \<and> concat (fed_ok (calls r)) = take k (content F)
                  \<and> bytes_after r = Some (of_nat k)" if "rc r = 2"
  proof -
    have lp2: "hash_loop lib f ctx 0 = (Return 2 released, n, evs)"
      using lp rc that by simp
    obtain k where k: "fault_in f = Some k" "k \<le> length (pending f)"
        "concat (fed_ok evs) = take k (pending f)"
      using hash_loop_Return_2 [OF lp2] by blast
    have "concat (fed_ok (calls r)) = take k (content F)"
      using k(3) c F(2) by simp
    moreover from this have "bytes_after r = Some (of_nat k)"
      using 4 k(2) F(2) by simp
    ultimately show ?thesis using k(1,2) F(2,3) by simp
  qed
  show ?thesis using 1 2 3 4 5 F(1) loop_return(1) by auto
next
  case (final_failed p h b f ctx0 ctx ctx' n evs)
  note lp = final_failed(7)
  obtain F where F: "fs p = Some F" "pending f = content F" "fault_in f = read_fault F"
    using final_failed(4) by (rule fopen_Some)
  have c: "calls r = [Fopen p True, Ctx_new True, Digest_init True] @ evs
                      @ [Digest_final None, Ctx_free, Fclose]"
    and b: "bytes_after r = Some n" and rc: "rc r = 3"
    using final_failed(9) r by auto
  have 1: "\<forall>k d. Fread k d \<in> set (calls r) \<longrightarrow> k = 65536 \<and> length d \<le> 65536"
    using hash_loop_requests [OF lp] c by (auto simp: buf_size_def)
  have 2: "fed (calls r) = reads (calls r)"
    using hash_loop_fed_reads [OF lp] c by simp
  have 3: "concat (reads (calls r)) = take (length (concat (reads (calls r)))) (content F)"
    using hash_loop_prefix [OF lp] c F(2) by simp
  have 4: "bytes_after r = Some (of_nat (length (concat (fed_ok (calls r)))))"
    using hash_loop_counter [OF lp] c b by simp
  show ?thesis using 1 2 3 4 rc F(1) final_failed(1) by auto
next
  case (bad_length p h b f ctx0 ctx ctx' n evs md)
  note lp = bad_length(7)
  obtain F where F: "fs p = Some F" "pending f = content F" "fault_in f = read_fault F"
    using bad_length(4) by (rule fopen_Some)
  have c: "calls r = [Fopen p True, Ctx_new True, Digest_init True] @ evs
                      @ [Digest_final (Some (length md)), Ctx_free, Fclose]"
    and b: "bytes_after r = Some n" and rc: "rc r = 3"
    using bad_length(10) r by auto
  have 1: "\<forall>k d. Fread k d \<in> set (calls r) \<longrightarrow> k = 65536 \<and> length d \<le> 65536"
    using hash_loop_requests [OF lp] c by (auto simp: buf_size_def)
  have 2: "fed (calls r) = reads (calls r)"
    using hash_loop_fed_reads [OF lp] c by simp
  have 3: "concat (reads (calls r)) = take (length (concat (reads (calls r)))) (content F)"
    using hash_loop_prefix [OF lp] c F(2) by simp
  have 4: "bytes_after r = Some (of_nat (length (concat (fed_ok (calls r)))))"
    using hash_loop_counter [OF lp] c b by simp
  show ?thesis using 1 2 3 4 rc F(1) bad_length(1) by auto
next
  case (success p h b f ctx0 ctx ctx' n evs md)
  note lp = success(7)
  obtain F where F: "fs p = Some F" "pending f = content F" "fault_in f = read_fault F"
    using success(4) by (rule fopen_Some)
  have c: "calls r = [Fopen p True, Ctx_new True, Digest_init True] @ evs
                      @ [Digest_final (Some 32), Ctx_free, Fclose]"
    and b: "bytes_after r = Some n" and rc: "rc r = 0"
    using success(10) r by auto
  have 1: "\<forall>k d. Fread k d \<in> set (calls r) \<longrightarrow> k = 65536 \<and> length d \<le> 65536"
    using hash_loop_requests [OF lp] c by (auto simp: buf_size_def)
  have 2: "fed (calls r) = reads (calls r)"
    using hash_loop_fed_reads [OF lp] c by simp
  have 3: "concat (reads (calls r)) = take (length (concat (reads (calls r)))) (content F)"
    using hash_loop_prefix [OF lp] c F(2) by simp
  have 4: "bytes_after r = Some (of_nat (length (concat (fed_ok (calls r)))))"
    using hash_loop_counter [OF lp] c b by simp
  show ?thesis using 1 2 3 4 rc F(1) success(1) by auto
qed

lemma read_loop_contexts:
  assumes r: "sfd_sha256_file fs lib (Some p) (Some h) (Some b) = r"
    and f: "fopen fs p = Some f"
    and c0: "EVP_MD_CTX_new lib = Some ctx0"
    and c: "EVP_DigestInit_ex lib ctx0 = Some ctx"
  shows "\<exists>ex n evs rest.
           hash_loop lib f ctx 0 = (ex, n, evs)
         \<and> calls r = [Fopen p True, Ctx_new True, Digest_init True] @ evs @ rest
         \<and> reads (calls r) = reads evs
         \<and> bytes_after r = Some n
         \<and> (\<forall>c'. ex = Break c' \<longrightarrow>
               evp_updates lib ctx (reads (calls r)) = Some c'
             \<and> fed_ok (calls r) = reads (calls r)
             \<and> rest = [Digest_final (map_option length (EVP_DigestFinal_ex lib c')),
                        Ctx_free, Fclose])
         \<and> (\<forall>code released. ex = Return code released \<longrightarrow>
               rc r = code \<and> rest = []
             \<and> (code = 2 \<longrightarrow>
                   released = evp_updates lib ctx (reads (calls r)) \<and> released \<noteq> None
                 \<and> fed_ok (calls r) = reads (calls r)))"
proof -
  obtain ex n evs where lp: "hash_loop lib f ctx 0 = (ex, n, evs)"
    by (cases "hash_loop lib f ctx 0")
  have noeof: "\<not> eof_ind f" using f by (rule fopen_Some)
  show ?thesis
  proof (cases ex)
    case (Return code released)
    note lp' = lp [unfolded Return]
    have "sfd_sha256_file fs lib (Some p) (Some h) (Some b)
            = \<lparr>rc = code, hash_after = Some h, bytes_after = Some n,
                 calls = [Fopen p True, Ctx_new True, Digest_init True] @ evs\<rparr>"
      using f c0 c lp' by (simp add: sfd_sha256_file_def)
    then have res: "rc r = code" "bytes_after r = Some n"
      "calls r = [Fopen p True, Ctx_new True, Digest_init True] @ evs @ []"
      unfolding r by simp_all
    have rd: "reads (calls r) = reads evs" "fed_ok (calls r) = fed_ok evs"
      unfolding res(3) by simp_all
    have two: "released = evp_updates lib ctx (reads evs) \<and> released \<noteq> None
        \<and> fed_ok evs = reads evs" if "code = 2"
      using hash_loop_Return_2_context [OF lp' [unfolded that]] by auto
    have brk: "\<forall>c'. ex = Break c' \<longrightarrow>
               evp_updates lib ctx (reads (calls r)) = Some c'
             \<and> fed_ok (calls r) = reads (calls r)
             \<and> [] = [Digest_final (map_option length (EVP_DigestFinal_ex lib c')),
                        Ctx_free, Fclose]"
      unfolding Return by simp
    have ret: "\<forall>code' released'. ex = Return code' released' \<longrightarrow>
               rc r = code' \<and> [] = ([] :: event list)
             \<and> (code' = 2 \<longrightarrow>
                   released' = evp_updates lib ctx (reads (calls r)) \<and> released' \<noteq> None
                 \<and> fed_ok (calls r) = reads (calls r))"
      unfolding Return rd using res(1) two by auto
    show ?thesis
      by (rule exI [of _ ex], rule exI [of _ n], rule exI [of _ evs], rule exI [of _ "[]"])
         (intro conjI, rule lp, rule res(3), rule rd(1), rule res(2), rule brk, rule ret)
  next
    case (Break c')
    note lp' = lp [unfolded Break]
    note inv = hash_loop_Break [OF lp' noeof]
    let ?rest = "[Digest_final (map_option length (EVP_DigestFinal_ex lib c')), Ctx_free, Fclose]"
    have "calls (sfd_sha256_file fs lib (Some p) (Some h) (Some b))
            = [Fopen p True, Ctx_new True, Digest_init True] @ evs @ ?rest
        \<and> bytes_after (sfd_sha256_file fs lib (Some p) (Some h) (Some b)) = Some n"
    proof (cases "EVP_DigestFinal_ex lib c'")
      case None
      then show ?thesis using f c0 c lp' by (simp add: sfd_sha256_file_def)
    next
      case (Some md)
      then show ?thesis using f c0 c lp' by (simp add: sfd_sha256_file_def)
    qed
    then have res: "calls r = [Fopen p True, Ctx_new True, Digest_init True] @ evs @ ?rest"
      "bytes_after r = Some n"
      unfolding r by simp_all
    have rd: "reads (calls r) = reads evs" "fed_ok (calls r) = fed_ok evs"
      unfolding res(1) by simp_all
    have brk: "\<forall>c''. ex = Break c'' \<longrightarrow>
               evp_updates lib ctx (reads (calls r)) = Some c''
             \<and> fed_ok (calls r) = reads (calls r)
             \<and> ?rest = [Digest_final (map_option length (EVP_DigestFinal_ex lib c'')),
                        Ctx_free, Fclose]"
      unfolding Break rd using inv by simp
    have ret: "\<forall>code released. ex = Return code released \<longrightarrow>
               rc r = code \<and> ?rest = []
             \<and> (code = 2 \<longrightarrow>
                   released = evp_updates lib ctx (reads (calls r)) \<and> released \<noteq> None
                 \<and> fed_ok (calls r) = reads (calls r))"
      unfolding Break by simp
    show ?thesis
      by (rule exI [of _ ex], rule exI [of _ n], rule exI [of _ evs], rule exI [of _ ?rest])
         (intro conjI, rule lp, rule res(1), rule rd(1), rule res(2), rule brk, rule ret)
  qed
qed

text \<open>
  Claim C6. The read loop asks for 65,536 bytes at every read. The chunks passed to
  the digest are the non-empty chunks read, each passed once, in the order read, and
  together they are an initial segment of the file: nothing reordered, skipped or
  read twice. The counter holds the number of bytes the digest accepted. Each chunk
  is fed into the digest context that the chunks before it left: when the loop is
  left by \<open>break\<close>, the context handed to the finalisation is the initialised
  context updated with every chunk read, in order. And when the hasher reports an
  I/O error on a file it opened, the read fault struck after some \<open>k\<close> bytes, and
  all \<open>k\<close> bytes delivered before it, those of a last partial chunk included, went
  into the counter and into the digest context, which is released in the state all
  those chunks left it in, before the return.
\<close>

theorem read_loop_accounting:
  assumes r: "sfd_sha256_file fs lib path out_hash out_bytes = r"
  shows "(\<forall>k d. Fread k d \<in> set (calls r) \<longrightarrow> k = 65536 \<and> length d \<le> 65536)
       \<and> fed (calls r) = reads (calls r)
       \<and> (\<forall>p F. path = Some p \<and> fs p = Some F \<longrightarrow>
             concat (reads (calls r)) = take (length (concat (reads (calls r)))) (content F))
       \<and> (path \<noteq> None \<and> out_hash \<noteq> None \<and> out_bytes \<noteq> None \<longrightarrow>
             bytes_after r = Some (of_nat (length (concat (fed_ok (calls r))))))
       \<and> (\<forall>p F. path = Some p \<and> fs p = Some F \<and> rc r = 2 \<longrightarrow>
             (\<exists>k. read_fault F = Some k \<and> k \<le> length (content F)
                  \<and> concat (fed_ok (calls r)) = take k (content F)
                  \<and> bytes_after r = Some (of_nat k)))
       \<and> (\<forall>p f ctx0 ctx.
             path = Some p \<and> out_hash \<noteq> None \<and> out_bytes \<noteq> None \<and> fopen fs p = Some f
             \<and> EVP_MD_CTX_new lib = Some ctx0 \<and> EVP_DigestInit_ex lib ctx0 = Some ctx \<longrightarrow>
             (\<exists>ex n evs rest.
                 hash_loop lib f ctx 0 = (ex, n, evs)
               \<and> calls r = [Fopen p True, Ctx_new True, Digest_init True] @ evs @ rest
               \<and> reads (calls r) = reads evs
               \<and> bytes_after r = Some n
               \<and> (\<forall>c'. ex = Break c' \<longrightarrow>
                     evp_updates lib ctx (reads (calls r)) = Some c'
                   \<and> fed_ok (calls r) = reads (calls r)
                   \<and> rest = [Digest_final (map_option length (EVP_DigestFinal_ex lib c')),
                              Ctx_free, Fclose])
               \<and> (\<forall>code released. ex = Return code released \<longrightarrow>
                     rc r = code \<and> rest = []
                   \<and> (code = 2 \<longrightarrow>
                         released = evp_updates lib ctx (reads (calls r)) \<and> released \<noteq> None
                       \<and> fed_ok (calls r) = reads (calls r)))))"
proof -
  note calls = read_loop_calls [OF r]
  have ctxs: "\<exists>ex n evs rest.
                 hash_loop lib f ctx 0 = (ex, n, evs)
               \<and> calls r = [Fopen p True, Ctx_new True, Digest_init True] @ evs @ rest
               \<and> reads (calls r) = reads evs
               \<and> bytes_after r = Some n
               \<and> (\<forall>c'. ex = Break c' \<longrightarrow>
                     evp_updates lib ctx (reads (calls r)) = Some c'
                   \<and> fed_ok (calls r) = reads (calls r)
                   \<and> rest = [Digest_final (map_option length (EVP_DigestFinal_ex lib c')),
                              Ctx_free, Fclose])
               \<and> (\<forall>code released. ex = Return code released \<longrightarrow>
                     rc r = code \<and> rest = []
                   \<and> (code = 2 \<longrightarrow>
                         released = evp_updates lib ctx (reads (calls r)) \<and> released \<noteq> None
                       \<and> fed_ok (calls r) = reads (calls r)))"
    if pth: "path = Some p" and oh: "out_hash \<noteq> None" and ob: "out_bytes \<noteq> None"
      and f: "fopen fs p = Some f"
      and c0: "EVP_MD_CTX_new lib = Some ctx0" and c: "EVP_DigestInit_ex lib ctx0 = Some ctx"
    for p f ctx0 ctx
  proof -
    obtain h b where hb: "out_hash = Some h" "out_bytes = Some b"
      using oh ob by auto
    have "sfd_sha256_file fs lib (Some p) (Some h) (Some b) = r"
      using r pth hb by simp
    then show ?thesis using f c0 c by (rule read_loop_contexts)
  qed
  have six: "\<forall>p f ctx0 ctx.
             path = Some p \<and> out_hash \<noteq> None \<and> out_bytes \<noteq> None \<and> fopen fs p = Some f
             \<and> EVP_MD_CTX_new lib = Some ctx0 \<and> EVP_DigestInit_ex lib ctx0 = Some ctx \<longrightarrow>
             (\<exists>ex n evs rest.
                 hash_loop lib f ctx 0 = (ex, n, evs)
               \<and> calls r = [Fopen p True, Ctx_new True, Digest_init True] @ evs @ rest
               \<and> reads (calls r) = reads evs
               \<and> bytes_after r = Some n
               \<and> (\<forall>c'. ex = Break c' \<longrightarrow>
                     evp_updates lib ctx (reads (calls r)) = Some c'
                   \<and> fed_ok (calls r) = reads (calls r)
                   \<and> rest = [Digest_final (map_option length (EVP_DigestFinal_ex lib c')),
                              Ctx_free, Fclose])
               \<and> (\<forall>code released. ex = Return code released \<longrightarrow>
                     rc r = code \<and> rest = []
                   \<and> (code = 2 \<longrightarrow>
                         released = evp_updates lib ctx (reads (calls r)) \<and> released \<noteq> None
                       \<and> fed_ok (calls r) = reads (calls r))))"
  proof (intro allI impI)
    fix p f ctx0 ctx
    assume "path = Some p \<and> out_hash \<noteq> None \<and> out_bytes \<noteq> None \<and> fopen fs p = Some f
             \<and> EVP_MD_CTX_new lib = Some ctx0 \<and> EVP_DigestInit_ex lib ctx0 = Some ctx"
    then have "path = Some p" "out_hash \<noteq> None" "out_bytes \<noteq> None" "fopen fs p = Some f"
      "EVP_MD_CTX_new lib = Some ctx0" "EVP_DigestInit_ex lib ctx0 = Some ctx"
      by simp_all
    then show "\<exists>ex n evs rest.
                 hash_loop lib f ctx 0 = (ex, n, evs)
               \<and> calls r = [Fopen p True, Ctx_new True, Digest_init True] @ evs @ rest
               \<and> reads (calls r) = reads evs
               \<and> bytes_after r = Some n
               \<and> (\<forall>c'. ex = Break c' \<longrightarrow>
                     evp_updates lib ctx (reads (calls r)) = Some c'
                   \<and> fed_ok (calls r) = reads (calls r)
                   \<and> rest = [Digest_final (map_option length (EVP_DigestFinal_ex lib c')),
                              Ctx_free, Fclose])
               \<and> (\<forall>code released. ex = Return code released \<longrightarrow>
                     rc r = code \<and> rest = []
                   \<and> (code = 2 \<longrightarrow>
                         released = evp_updates lib ctx (reads (calls r)) \<and> released \<noteq> None
                       \<and> fed_ok (calls r) = reads (calls r)))"
      by (rule ctxs)
  qed
  note c1 = calls [THEN conjunct1]
    and c2 = calls [THEN conjunct2, THEN conjunct1]
    and c3 = calls [THEN conjunct2, THEN conjunct2, THEN conjunct1]
    and c4 = calls [THEN conjunct2, THEN conjunct2, THEN conjunct2, THEN conjunct1]
    and c5 = calls [THEN conjunct2, THEN conjunct2, THEN conjunct2, THEN conjunct2]
  show ?thesis
    by (intro conjI) (rule c1, rule c2, rule c3, rule c4, rule c5, rule six)
qed

theorem read_loop_accounting_witness:
  "sfd_sha256_file (one_file ''f'' \<lparr>content = [1, 2, 3], read_fault = Some 2\<rparr>) evp_reference
       (Some ''f'') (Some []) (Some 0)
     = \<lparr>rc = 2, hash_after = Some [], bytes_after = Some 2,
        calls = [Fopen ''f'' True, Ctx_new True, Digest_init True, Fread 65536 [1, 2],
                 Digest_update [1, 2] True, Ctx_free, Fclose]\<rparr>
   \<and> fed [Fopen ''f'' True, Ctx_new True, Digest_init True, Fread 65536 [1, 2],
           Digest_update [1, 2] True, Ctx_free, Fclose]
       = reads [Fopen ''f'' True, Ctx_new True, Digest_init True, Fread 65536 [1, 2],
           Digest_update [1, 2] True, Ctx_free, Fclose]
   \<and> concat (fed_ok [Fopen ''f'' True, Ctx_new True, Digest_init True, Fread 65536 [1, 2],
           Digest_update [1, 2] True, Ctx_free, Fclose]) = take 2 [1, 2, 3]
   \<and> fopen (one_file ''f'' \<lparr>content = [1, 2, 3], read_fault = Some 2\<rparr>) ''f''
       = Some \<lparr>pending = [1, 2, 3], fault_in = Some 2, eof_ind = False, err_ind = False\<rparr>
   \<and> EVP_MD_CTX_new evp_reference = Some []
   \<and> EVP_DigestInit_ex evp_reference [] = Some []
   \<and> hash_loop evp_reference
        \<lparr>pending = [1, 2, 3], fault_in = Some 2, eof_ind = False, err_ind = False\<rparr> [] 0
       = (Return 2 (Some [1, 2]), 2,
          [Fread 65536 [1, 2], Digest_update [1, 2] True, Ctx_free, Fclose])
   \<and> Some [1, 2]
       = evp_updates evp_reference []
           (reads [Fopen ''f'' True, Ctx_new True, Digest_init True, Fread 65536 [1, 2],
                   Digest_update [1, 2] True, Ctx_free, Fclose])"
proof -
  let ?f = "\<lparr>pending = [1, 2, 3], fault_in = Some 2, eof_ind = False, err_ind = False\<rparr>"
  have op: "fopen (one_file ''f'' \<lparr>content = [1, 2, 3], read_fault = Some 2\<rparr>) ''f'' = Some ?f"
    by (simp add: fopen_def one_file_def)
  have new: "EVP_MD_CTX_new evp_reference = Some []"
    and init: "EVP_DigestInit_ex evp_reference [] = Some []"
    by (simp_all add: evp_reference_def)
  have lp: "hash_loop evp_reference ?f [] 0
        = (Return 2 (Some [1, 2]), 2,
           [Fread 65536 [1, 2], Digest_update [1, 2] True, Ctx_free, Fclose])"
    by (subst hash_loop.simps)
       (simp add: fread_def feed_def buf_size_def feof_def ferror_def evp_reference_def)
  let ?R = "\<lparr>rc = 2, hash_after = Some [], bytes_after = Some 2,
        calls = [Fopen ''f'' True, Ctx_new True, Digest_init True, Fread 65536 [1, 2],
                 Digest_update [1, 2] True, Ctx_free, Fclose]\<rparr>"
  note all = read_loop_accounting [OF demo_fault_run]
  note six = all [THEN conjunct2, THEN conjunct2, THEN conjunct2, THEN conjunct2,
      THEN conjunct2, rule_format, of "''f''" ?f "[]" "[]"]
  have prem: "Some ''f'' = Some ''f'' \<and> Some ([] :: byte list) \<noteq> None
      \<and> Some (0 :: u64) \<noteq> None
      \<and> fopen (one_file ''f'' \<lparr>content = [1, 2, 3], read_fault = Some 2\<rparr>) ''f'' = Some ?f
      \<and> EVP_MD_CTX_new evp_reference = Some []
      \<and> EVP_DigestInit_ex evp_reference [] = Some []"
    using op new init by simp
  have "Some [1, 2] = evp_updates evp_reference [] (reads (calls ?R))"
    using lp six [OF prem] by - (elim exE conjE, simp)
  then have ctx: "Some [1, 2]
       = evp_updates evp_reference []
           (reads [Fopen ''f'' True, Ctx_new True, Digest_init True, Fread 65536 [1, 2],
                   Digest_update [1, 2] True, Ctx_free, Fclose])"
    by simp
  have c2: "fed (calls ?R) = reads (calls ?R)"
    by (rule all [THEN conjunct2, THEN conjunct1])
  show ?thesis
    using demo_fault_run op new init lp ctx c2 by simp
qed



text \<open>
  Claim C9. Whenever the hasher has opened the file and acquired the digest context,
  the last two calls it makes before returning are the release of the context and
  the closing of the file, each made exactly once, whether it returns 0, 2 or 3.
\<close>

theorem resources_released:
  assumes "Ctx_new True \<in> set (calls (sfd_sha256_file fs lib path out_hash out_bytes))"
  shows "\<exists>p pre. calls (sfd_sha256_file fs lib path out_hash out_bytes)
                   = Fopen p True # Ctx_new True # pre @ [Ctx_free, Fclose]
               \<and> Ctx_free \<notin> set pre \<and> Fclose \<notin> set pre"
proof (cases rule: sfd_sha256_file_cases [of path out_hash out_bytes fs lib])
  case (loop_return p h b f ctx0 ctx code n evs)
  obtain pre where pre: "evs = pre @ [Ctx_free, Fclose]" "Ctx_free \<notin> set pre" "Fclose \<notin> set pre"
    using hash_loop_Return_code [OF loop_return(7)] by blast
  have "calls (sfd_sha256_file fs lib path out_hash out_bytes)
        = Fopen p True # Ctx_new True # (Digest_init True # pre) @ [Ctx_free, Fclose]"
    using loop_return(8) pre(1) by simp
  moreover have "Ctx_free \<notin> set (Digest_init True # pre)" "Fclose \<notin> set (Digest_init True # pre)"
    using pre by auto
  ultimately show ?thesis by blast
next
  case (final_failed p h b f ctx0 ctx ctx' n evs)
  have "\<not> eof_ind f" using final_failed(4) by (rule fopen_Some)
  then have ev: "Ctx_free \<notin> set evs" "Fclose \<notin> set evs"
    using hash_loop_Break [OF final_failed(7)] by simp_all
  have "calls (sfd_sha256_file fs lib path out_hash out_bytes)
        = Fopen p True # Ctx_new True # (Digest_init True # evs @ [Digest_final None]) @ [Ctx_free, Fclose]"
    using final_failed(9) by simp
  moreover have "Ctx_free \<notin> set (Digest_init True # evs @ [Digest_final None])"
      "Fclose \<notin> set (Digest_init True # evs @ [Digest_final None])"
    using ev by auto
  ultimately show ?thesis by blast
next
  case (bad_length p h b f ctx0 ctx ctx' n evs md)
  have "\<not> eof_ind f" using bad_length(4) by (rule fopen_Some)
  then have ev: "Ctx_free \<notin> set evs" "Fclose \<notin> set evs"
    using hash_loop_Break [OF bad_length(7)] by simp_all
  have "calls (sfd_sha256_file fs lib path out_hash out_bytes)
        = Fopen p True # Ctx_new True
            # (Digest_init True # evs @ [Digest_final (Some (length md))]) @ [Ctx_free, Fclose]"
    using bad_length(10) by simp
  moreover have "Ctx_free \<notin> set (Digest_init True # evs @ [Digest_final (Some (length md))])"
      "Fclose \<notin> set (Digest_init True # evs @ [Digest_final (Some (length md))])"
    using ev by auto
  ultimately show ?thesis by blast
next
  case (success p h b f ctx0 ctx ctx' n evs md)
  have "\<not> eof_ind f" using success(4) by (rule fopen_Some)
  then have ev: "Ctx_free \<notin> set evs" "Fclose \<notin> set evs"
    using hash_loop_Break [OF success(7)] by simp_all
  have "calls (sfd_sha256_file fs lib path out_hash out_bytes)
        = Fopen p True # Ctx_new True
            # (Digest_init True # evs @ [Digest_final (Some 32)]) @ [Ctx_free, Fclose]"
    using success(10) by simp
  moreover have "Ctx_free \<notin> set (Digest_init True # evs @ [Digest_final (Some 32)])"
      "Fclose \<notin> set (Digest_init True # evs @ [Digest_final (Some 32)])"
    using ev by auto
  ultimately show ?thesis by blast
next
  case (init_failed p h b f ctx0)
  have "calls (sfd_sha256_file fs lib path out_hash out_bytes)
        = Fopen p True # Ctx_new True # [Digest_init False] @ [Ctx_free, Fclose]"
    using init_failed(7) by simp
  moreover have "Ctx_free \<notin> set [Digest_init False]" "Fclose \<notin> set [Digest_init False]"
    by auto
  ultimately show ?thesis by blast
qed (use assms in simp_all)

theorem resources_released_witness:
  "Ctx_new True \<in> set (calls (sfd_sha256_file (one_file ''f'' \<lparr>content = [], read_fault = None\<rparr>)
        (evp_scripted True False True True 32) (Some ''f'') (Some []) (Some 0)))
   \<and> calls (sfd_sha256_file (one_file ''f'' \<lparr>content = [], read_fault = None\<rparr>)
        (evp_scripted True False True True 32) (Some ''f'') (Some []) (Some 0))
      = [Fopen ''f'' True, Ctx_new True, Digest_init False, Ctx_free, Fclose]"
proof -
  have c: "calls (sfd_sha256_file (one_file ''f'' \<lparr>content = [], read_fault = None\<rparr>)
        (evp_scripted True False True True 32) (Some ''f'') (Some []) (Some 0))
      = [Fopen ''f'' True, Ctx_new True, Digest_init False, Ctx_free, Fclose]"
    by (simp add: sfd_sha256_file_def one_file_def fopen_def evp_scripted_def)
  then have "Ctx_new True \<in> set (calls (sfd_sha256_file (one_file ''f'' \<lparr>content = [], read_fault = None\<rparr>)
        (evp_scripted True False True True 32) (Some ''f'') (Some []) (Some 0)))"
    by simp
  from resources_released [OF this] c show ?thesis by simp
qed

text \<open>
  Claim C10. Called with a null \<open>path\<close>, \<open>out_hash\<close> or \<open>out_bytes\<close>, the hasher
  returns 1 having made no library call (no file opened, no digest context acquired)
  and having left the objects behind the other pointers as they were; and the
  driver's handling of a return code 1 is the message \<open>Hashing error\<close> on standard
  error with exit status 3, not the usage status 1.
\<close>

theorem sfd_sha256_file_null_arguments:
  "(path = None \<or> out_hash = None \<or> out_bytes = None \<longrightarrow>
      sfd_sha256_file fs lib path out_hash out_bytes
        = \<lparr>rc = 1, hash_after = out_hash, bytes_after = out_bytes, calls = []\<rparr>)
   \<and> report 1 hash bytes hex_buf
        = \<lparr>exit_code = 3, stdout = [], stderr = ''Hashing error'' @ [CHR 0x0A]\<rparr>"
  using sfd_sha256_file_null [of path out_hash out_bytes fs lib]
  by (simp add: report_failure)

theorem sfd_sha256_file_null_arguments_witness:
  "sfd_sha256_file (\<lambda>p. Some \<lparr>content = [0x61], read_fault = None\<rparr>) evp_reference
       None (Some [1, 2, 3]) (Some 7)
     = \<lparr>rc = 1, hash_after = Some [1, 2, 3], bytes_after = Some 7, calls = []\<rparr>
   \<and> report 1 [] 0 [] = \<lparr>exit_code = 3, stdout = [], stderr = ''Hashing error'' @ [CHR 0x0A]\<rparr>"
  using sfd_sha256_file_null_arguments
    [of None "Some [1, 2, 3]" "Some 7" "\<lambda>p. Some \<lparr>content = [0x61], read_fault = None\<rparr>"
        evp_reference "[]" 0 "[]"]
  by simp

section \<open>Properties of the driver\<close>

text \<open>
  Claim C2. A run that exits with status 0 has written to standard output exactly the
  record \<open>{"algorithm":"sha256","hash":"<hex>","bytes":<count>}\<close> and one newline
  after it, with the fields in this order, no space and no trailing comma: \<open><hex>\<close>
  is the 64 characters, all from \<open>0123456789abcdef\<close>, that encode the 32 bytes the
  hasher stored, \<open><count>\<close> is the counter in decimal without a leading zero, the
  newline is the only one, and nothing went to standard error.
\<close>

theorem main_success_output:
  assumes "exit_code (main e prog args) = 0"
  shows "\<exists>digest n.
           hash_after (hasher_call e args) = Some digest
         \<and> bytes_after (hasher_call e args) = Some n
         \<and> stdout (main e prog args)
             = ''{\"algorithm\":\"sha256\",\"hash\":\"'' @ concat (map hex_pair digest)
                 @ ''\",\"bytes\":'' @ decimal (unat n) @ ''}'' @ [CHR 0x0A]
         \<and> length (concat (map hex_pair digest)) = 64
         \<and> set (concat (map hex_pair digest)) \<subseteq> set hex
         \<and> decimal (unat n) \<noteq> []
         \<and> set (decimal (unat n)) \<subseteq> set decimal_digits
         \<and> (hd (decimal (unat n)) = CHR ''0'' \<longrightarrow> decimal (unat n) = ''0'')
         \<and> CHR 0x0A \<notin> set (butlast (stdout (main e prog args)))
         \<and> stderr (main e prog args) = []"
proof -
  from assms obtain digest n where
    h: "hash_after (hasher_call e args) = Some digest"
    and b: "bytes_after (hasher_call e args) = Some n"
    and len: "length digest = 32"
    and m: "main e prog args =
           \<lparr>exit_code = 0,
            stdout = ''{\"algorithm\":\"sha256\",\"hash\":\"'' @ concat (map hex_pair digest)
                       @ ''\",\"bytes\":'' @ decimal (unat n) @ ''}'' @ [CHR 0x0A],
            stderr = []\<rparr>"
    by (rule main_success)
  let ?hex = "concat (map hex_pair digest)" and ?dec = "decimal (unat n)"
  have hexlen: "length ?hex = 64"
    using len by (simp add: length_concat_hex_pair)
  have hexchars: "set ?hex \<subseteq> set hex"
    by (rule concat_hex_pair_chars)
  have decchars: "set ?dec \<subseteq> set decimal_digits"
    by (rule decimal_chars)
  have lead: "hd ?dec = CHR ''0'' \<longrightarrow> ?dec = ''0''"
    using decimal_leading_zero [of "unat n"] decimal_0 by auto
  have nl: "CHR 0x0A \<notin> set ?hex" "CHR 0x0A \<notin> set ?dec"
    using hexchars decchars newline_not_hex newline_not_decimal by blast+
  have "butlast (stdout (main e prog args))
        = ''{\"algorithm\":\"sha256\",\"hash\":\"'' @ ?hex @ ''\",\"bytes\":'' @ ?dec @ ''}''"
    unfolding m by (simp add: butlast_append)
  then have one: "CHR 0x0A \<notin> set (butlast (stdout (main e prog args)))"
    using nl by simp
  show ?thesis
    using h b m hexlen hexchars decimal_nonempty [of "unat n"] decchars lead one
    by simp
qed

theorem main_success_output_witness:
  "exit_code (main (demo_env (one_file ''f'' \<lparr>content = [], read_fault = None\<rparr>)
          (evp_scripted True True True True 32)) ''sfd'' [''f'']) = 0
   \<and> stdout (main (demo_env (one_file ''f'' \<lparr>content = [], read_fault = None\<rparr>)
          (evp_scripted True True True True 32)) ''sfd'' [''f''])
      = ''{\"algorithm\":\"sha256\",\"hash\":\"0000000000000000000000000000000000000000000000000000000000000000\",\"bytes\":0}''
          @ [CHR 0x0A]
   \<and> (\<exists>digest n.
           hash_after (hasher_call (demo_env (one_file ''f'' \<lparr>content = [], read_fault = None\<rparr>)
              (evp_scripted True True True True 32)) [''f'']) = Some digest
         \<and> bytes_after (hasher_call (demo_env (one_file ''f'' \<lparr>content = [], read_fault = None\<rparr>)
              (evp_scripted True True True True 32)) [''f'']) = Some n
         \<and> length (concat (map hex_pair digest)) = 64)"
proof -
  let ?e = "demo_env (one_file ''f'' \<lparr>content = [], read_fault = None\<rparr>)
          (evp_scripted True True True True 32)"
  have hexz: "concat (map hex_pair (replicate 32 (0 :: byte)))
      = ''0000000000000000000000000000000000000000000000000000000000000000''"
    by code_simp
  have ok: "exit_code (main ?e ''sfd'' [''f'']) = 0"
    by (simp add: demo_zero_digest_run)
  have out: "stdout (main ?e ''sfd'' [''f''])
      = ''{\"algorithm\":\"sha256\",\"hash\":\"0000000000000000000000000000000000000000000000000000000000000000\",\"bytes\":0}''
          @ [CHR 0x0A]"
    unfolding demo_zero_digest_run hexz by (simp add: decimal_0)
  from main_success_output [OF ok] obtain digest n where
    "hash_after (hasher_call ?e [''f'']) = Some digest"
    "bytes_after (hasher_call ?e [''f'']) = Some n"
    "length (concat (map hex_pair digest)) = 64"
    by blast
  then have "\<exists>digest n.
           hash_after (hasher_call ?e [''f'']) = Some digest
         \<and> bytes_after (hasher_call ?e [''f'']) = Some n
         \<and> length (concat (map hex_pair digest)) = 64"
    by blast
  with ok out show ?thesis by (intro conjI)
qed

text \<open>
  Claim C3. The exit-code mapping of the driver, on every run: with an argument count
  other than one, the usage line \<open>Usage: <program-name> <file-path>\<close> goes to
  standard error and the status is 1; otherwise the hasher is called and returns
  0, 2 or 3: on 2 (an I/O error) the driver prints \<open>File I/O error\<close> to standard
  error and exits with 2, on 3 (a hashing error) it prints \<open>Hashing error\<close> and
  exits with 3, and on 0 it exits with 0.
\<close>

theorem main_exit_code_mapping:
  "(length args \<noteq> 1 \<longrightarrow>
      main e prog args
        = \<lparr>exit_code = 1, stdout = [],
           stderr = ''Usage: '' @ prog @ '' <file-path>'' @ [CHR 0x0A]\<rparr>)
   \<and> (length args = 1 \<longrightarrow>
        rc (hasher_call e args) \<in> {0, 2, 3}
        \<and> (rc (hasher_call e args) = 2 \<longrightarrow>
             main e prog args
               = \<lparr>exit_code = 2, stdout = [], stderr = ''File I/O error'' @ [CHR 0x0A]\<rparr>)
        \<and> (rc (hasher_call e args) = 3 \<longrightarrow>
             main e prog args
               = \<lparr>exit_code = 3, stdout = [], stderr = ''Hashing error'' @ [CHR 0x0A]\<rparr>)
        \<and> (rc (hasher_call e args) = 0 \<longrightarrow>
             exit_code (main e prog args) = 0 \<and> stderr (main e prog args) = []))"
proof -
  have "main e prog args
        = \<lparr>exit_code = 1, stdout = [],
           stderr = ''Usage: '' @ prog @ '' <file-path>'' @ [CHR 0x0A]\<rparr>"
    if "length args \<noteq> 1"
    using that by (simp add: main_usage usage_def)
  moreover have "main e prog args
               = \<lparr>exit_code = 2, stdout = [], stderr = ''File I/O error'' @ [CHR 0x0A]\<rparr>"
    if "length args = 1" and "rc (hasher_call e args) = 2"
    unfolding main_run [OF that(1)] using that(2) by (simp add: report_failure)
  moreover have "main e prog args
               = \<lparr>exit_code = 3, stdout = [], stderr = ''Hashing error'' @ [CHR 0x0A]\<rparr>"
    if "length args = 1" and "rc (hasher_call e args) = 3"
    unfolding main_run [OF that(1)] using that(2) by (simp add: report_failure)
  moreover have "exit_code (main e prog args) = 0 \<and> stderr (main e prog args) = []"
    if "length args = 1" and "rc (hasher_call e args) = 0"
    unfolding main_run [OF that(1)] using that(2) by (simp add: report_def Let_def)
  ultimately show ?thesis using hasher_call_rc [of e args] by blast
qed

theorem main_exit_code_mapping_witness:
  "main (demo_env (one_file ''f'' \<lparr>content = [], read_fault = None\<rparr>) evp_reference) ''sfd'' []
     = \<lparr>exit_code = 1, stdout = [], stderr = ''Usage: sfd <file-path>'' @ [CHR 0x0A]\<rparr>
   \<and> rc (hasher_call (demo_env (one_file ''f'' \<lparr>content = [], read_fault = None\<rparr>) evp_reference)
         [''g'']) = 2
   \<and> main (demo_env (one_file ''f'' \<lparr>content = [], read_fault = None\<rparr>) evp_reference) ''sfd'' [''g'']
     = \<lparr>exit_code = 2, stdout = [], stderr = ''File I/O error'' @ [CHR 0x0A]\<rparr>
   \<and> rc (hasher_call (demo_env (one_file ''f'' \<lparr>content = [], read_fault = None\<rparr>)
         (evp_scripted True False True True 32)) [''f'']) = 3
   \<and> main (demo_env (one_file ''f'' \<lparr>content = [], read_fault = None\<rparr>)
         (evp_scripted True False True True 32)) ''sfd'' [''f'']
     = \<lparr>exit_code = 3, stdout = [], stderr = ''Hashing error'' @ [CHR 0x0A]\<rparr>"
proof -
  let ?fs = "one_file ''f'' \<lparr>content = [], read_fault = None\<rparr>"
  have a: "length ([] :: string list) \<noteq> 1" by simp
  have b: "rc (hasher_call (demo_env ?fs evp_reference) [''g'']) = 2"
    by (simp add: demo_env_def one_file_def sfd_sha256_file_def fopen_def)
  have c: "rc (hasher_call (demo_env ?fs (evp_scripted True False True True 32)) [''f'']) = 3"
    by (simp add: demo_env_def one_file_def sfd_sha256_file_def fopen_def evp_scripted_def)
  show ?thesis
    using main_exit_code_mapping [of "[]" "demo_env ?fs evp_reference" "''sfd''"]
      main_exit_code_mapping [of "[''g'']" "demo_env ?fs evp_reference" "''sfd''"]
      main_exit_code_mapping [of "[''f'']" "demo_env ?fs (evp_scripted True False True True 32)" "''sfd''"]
      a b c
    by simp
qed

text \<open>
  Claim C4. A run that fails (exit status other than 0) has written nothing to
  standard output and its exit status is 1, 2 or 3; and a call of the hasher that
  fails (return code other than 0) leaves the buffer \<open>out_hash\<close> as it was.
\<close>

theorem failure_emits_nothing:
  "(exit_code (main e prog args) \<noteq> 0 \<longrightarrow>
      stdout (main e prog args) = [] \<and> exit_code (main e prog args) \<in> {1, 2, 3})
   \<and> (rc (sfd_sha256_file fs lib path out_hash out_bytes) \<noteq> 0 \<longrightarrow>
        hash_after (sfd_sha256_file fs lib path out_hash out_bytes) = out_hash)"
proof -
  have "stdout (main e prog args) = [] \<and> exit_code (main e prog args) \<in> {1, 2, 3}"
    if fail: "exit_code (main e prog args) \<noteq> 0"
  proof (cases "length args = 1")
    case False
    then show ?thesis by (simp add: main_usage)
  next
    case True
    have "rc (hasher_call e args) \<noteq> 0"
      using fail unfolding main_run [OF True] by (simp add: report_exit_zero)
    then show ?thesis
      unfolding main_run [OF True] by (simp add: report_failure)
  qed
  then show ?thesis
    using sfd_sha256_file_failure_keeps_hash [of fs lib path out_hash out_bytes] by blast
qed

theorem failure_emits_nothing_witness:
  "exit_code (main (demo_env (one_file ''f'' \<lparr>content = [], read_fault = None\<rparr>) evp_reference)
      ''sfd'' [''g'']) \<noteq> 0
   \<and> stdout (main (demo_env (one_file ''f'' \<lparr>content = [], read_fault = None\<rparr>) evp_reference)
      ''sfd'' [''g'']) = []
   \<and> exit_code (main (demo_env (one_file ''f'' \<lparr>content = [], read_fault = None\<rparr>) evp_reference)
      ''sfd'' [''g'']) = 2
   \<and> rc (sfd_sha256_file (one_file ''f'' \<lparr>content = [], read_fault = None\<rparr>) evp_reference
        (Some ''g'') (Some [1, 2]) (Some 9)) \<noteq> 0
   \<and> hash_after (sfd_sha256_file (one_file ''f'' \<lparr>content = [], read_fault = None\<rparr>) evp_reference
        (Some ''g'') (Some [1, 2]) (Some 9)) = Some [1, 2]"
  using failure_emits_nothing
    [of "demo_env (one_file ''f'' \<lparr>content = [], read_fault = None\<rparr>) evp_reference"
        "''sfd''" "[''g'']" "one_file ''f'' \<lparr>content = [], read_fault = None\<rparr>" evp_reference
        "Some ''g''" "Some [1, 2]" "Some 9"]
  by (simp add: main_def demo_env_def one_file_def sfd_sha256_file_def fopen_def report_def)

text \<open>
  Claim C7. For an empty file, with a digest library that computes SHA-256 and whose
  calls go through, the hasher returns 0 with the counter at 0 and the SHA-256 of
  the empty string in \<open>out_hash\<close>, whose hex encoding is
  \<open>e3b0c44298fc1c149afbf4c8996fb92427ae41e4649b934ca495991b7852b855\<close>, and the
  driver prints the record with this hash and the byte count 0.
\<close>

theorem empty_file_digest:
  assumes lib: "evp_is_sha256 (crypto e)"
    and F: "files e path = Some F" and empty: "content F = []"
    and nofault: "read_fault F \<noteq> Some 0"
    and new: "EVP_MD_CTX_new (crypto e) = Some ctx0"
    and init: "EVP_DigestInit_ex (crypto e) ctx0 = Some ctx"
    and final: "EVP_DigestFinal_ex (crypto e) ctx = Some md"
  shows "sfd_sha256_file (files e) (crypto e) (Some path) (Some h) (Some b)
           = \<lparr>rc = 0, hash_after = Some (sha256 [] @ drop 32 h), bytes_after = Some 0,
              calls = [Fopen path True, Ctx_new True, Digest_init True, Fread 65536 [],
                       Digest_final (Some 32), Ctx_free, Fclose]\<rparr>
       \<and> concat (map hex_pair (sha256 []))
           = ''e3b0c44298fc1c149afbf4c8996fb92427ae41e4649b934ca495991b7852b855''
       \<and> main e prog [path]
           = \<lparr>exit_code = 0,
              stdout = ''{\"algorithm\":\"sha256\",\"hash\":\"e3b0c44298fc1c149afbf4c8996fb92427ae41e4649b934ca495991b7852b855\",\"bytes\":0}''
                         @ [CHR 0x0A],
              stderr = []\<rparr>"
proof -
  let ?f = "\<lparr>pending = content F, fault_in = read_fault F, eof_ind = False, err_ind = False\<rparr>"
  have op: "fopen (files e) path = Some ?f"
    using F by (simp add: fopen_def)
  have lp: "hash_loop (crypto e) ?f ctx 0 = (Break ctx, 0, [Fread buf_size []])"
    by (rule hash_loop_at_end) (simp_all add: empty nofault)
  have "evp_digest (crypto e) [] = Some md"
    using new init final by (simp add: evp_digest_def)
  then have "md = sha256 (concat [])"
    using lib unfolding evp_is_sha256_def by blast
  then have md: "md = sha256 []" by simp
  have call: "sfd_sha256_file (files e) (crypto e) (Some path) (Some h') (Some b')
           = \<lparr>rc = 0, hash_after = Some (sha256 [] @ drop 32 h'), bytes_after = Some 0,
              calls = [Fopen path True, Ctx_new True, Digest_init True, Fread 65536 [],
                       Digest_final (Some 32), Ctx_free, Fclose]\<rparr>" for h' b'
    using op new init lp final md
    by (simp add: sfd_sha256_file_def length_sha256 SFD_SHA256_LEN_def memcpy_def buf_size_def)
  have call': "hasher_call e [path]
           = \<lparr>rc = 0, hash_after = Some (sha256 []), bytes_after = Some 0,
              calls = [Fopen path True, Ctx_new True, Digest_init True, Fread 65536 [],
                       Digest_final (Some 32), Ctx_free, Fclose]\<rparr>"
    by (simp add: call SFD_SHA256_LEN_def)
  have hx: "c_string (sfd_hex_encode_lower (sha256 []) SFD_SHA256_LEN
              (map (uninit_hex e) [0..<SFD_SHA256_LEN * 2 + 1]))
            = concat (map hex_pair (sha256 []))"
    by (rule c_string_hex_encode) (simp_all add: SFD_SHA256_LEN_def length_sha256)
  have one: "length [path] = 1" by simp
  have "main e prog [path]
           = \<lparr>exit_code = 0,
              stdout = ''{\"algorithm\":\"sha256\",\"hash\":\"'' @ concat (map hex_pair (sha256 []))
                       @ ''\",\"bytes\":'' @ decimal (unat (0 :: u64)) @ ''}'' @ [CHR 0x0A],
              stderr = []\<rparr>"
    unfolding main_run [OF one] call' hash_result.simps option.case report_def Let_def hx
    by simp
  then have "main e prog [path]
           = \<lparr>exit_code = 0,
              stdout = ''{\"algorithm\":\"sha256\",\"hash\":\"e3b0c44298fc1c149afbf4c8996fb92427ae41e4649b934ca495991b7852b855\",\"bytes\":0}''
                         @ [CHR 0x0A],
              stderr = []\<rparr>"
    unfolding hex_sha256_empty by (simp add: decimal_0)
  then show ?thesis using call [of h b] hex_sha256_empty by simp
qed

theorem empty_file_digest_witness:
  "evp_is_sha256 evp_reference
   \<and> main (demo_env (one_file ''empty'' \<lparr>content = [], read_fault = None\<rparr>) evp_reference)
        ''sfd'' [''empty'']
       = \<lparr>exit_code = 0,
          stdout = ''{\"algorithm\":\"sha256\",\"hash\":\"e3b0c44298fc1c149afbf4c8996fb92427ae41e4649b934ca495991b7852b855\",\"bytes\":0}''
                     @ [CHR 0x0A],
          stderr = []\<rparr>
   \<and> rc (sfd_sha256_file (one_file ''empty'' \<lparr>content = [], read_fault = None\<rparr>) evp_reference
         (Some ''empty'') (Some (replicate 32 0)) (Some 5)) = 0
   \<and> bytes_after (sfd_sha256_file (one_file ''empty'' \<lparr>content = [], read_fault = None\<rparr>)
         evp_reference (Some ''empty'') (Some (replicate 32 0)) (Some 5)) = Some 0"
proof -
  let ?F = "\<lparr>content = [], read_fault = None\<rparr>"
  let ?e = "demo_env (one_file ''empty'' ?F) evp_reference"
  have lib: "evp_is_sha256 (crypto ?e)"
    using evp_reference_is_sha256 by (simp add: demo_env_def)
  have F: "files ?e ''empty'' = Some ?F"
    by (simp add: demo_env_def one_file_def)
  have empty: "content ?F = []" and nofault: "read_fault ?F \<noteq> Some 0"
    by simp_all
  have new: "EVP_MD_CTX_new (crypto ?e) = Some []"
    and init: "EVP_DigestInit_ex (crypto ?e) [] = Some []"
    and final: "EVP_DigestFinal_ex (crypto ?e) [] = Some (sha256 [])"
    by (simp_all add: demo_env_def evp_reference_def)
  have fs: "files ?e = one_file ''empty'' ?F" and cr: "crypto ?e = evp_reference"
    by (simp_all add: demo_env_def)
  show ?thesis
    using empty_file_digest [OF lib F empty nofault new init final, of "replicate 32 0" 5 "''sfd''"]
      evp_reference_is_sha256
    unfolding fs cr by simp
qed

end
